theory Spec2Isabelle
  imports Main
begin

section \<open>Collection name extraction\<close>

text \<open>
  Go strings and byte slices are modelled as \<open>string\<close>: a list of 8-bit characters.
  The functions of the Go standard library that the importer calls are modelled from
  their documented behaviour, each under the name of the Go function.
\<close>

text \<open>
  \<^verbatim>\<open>strings.HasSuffix(s, suffix)\<close>:
  \<^verbatim>\<open>len(s) >= len(suffix) && s[len(s)-len(suffix):] == suffix\<close>.
\<close>

definition strings_HasSuffix :: "string \<Rightarrow> string \<Rightarrow> bool" where
  "strings_HasSuffix s suffix =
     (length suffix \<le> length s \<and> drop (length s - length suffix) s = suffix)"

text \<open>
  \<^verbatim>\<open>strings.Split(s, sep)\<close> for a separator of one byte, as in the call
  \<^verbatim>\<open>strings.Split(name, ".")\<close>: the substrings between the separators, one more
  than the number of separators, so never an empty slice.
\<close>

fun strings_Split :: "string \<Rightarrow> char \<Rightarrow> string list" where
  "strings_Split [] sep = [[]]"
| "strings_Split (c # cs) sep =
     (if c = sep then [] # strings_Split cs sep
      else (case strings_Split cs sep of
              [] \<Rightarrow> [[c]]
            | p # ps \<Rightarrow> (c # p) # ps))"

text \<open>
  \<^verbatim>\<open>filepath.Base(path)\<close> on a system whose path separator is \<open>/\<close> and that has
  no volume names: the empty path gives \<open>.\<close>, trailing separators are removed, the
  last element is what follows the last separator, and a path of separators only
  gives \<open>/\<close>.
\<close>

definition filepath_Base :: "string \<Rightarrow> string" where
  "filepath_Base path =
     (if path = [] then ''.''
      else
        let stripped = rev (dropWhile (\<lambda>c. c = CHR ''/'') (rev path));
            elem = rev (takeWhile (\<lambda>c. c \<noteq> CHR ''/'') (rev stripped))
        in if elem = [] then ''/'' else elem)"

text \<open>\<^verbatim>\<open>extractCollectionName\<close> of \<^verbatim>\<open>main.go\<close>, lines 141 to 151.\<close>

definition extractCollectionName :: "string \<Rightarrow> string" where
  "extractCollectionName filePath =
     (let name = filepath_Base filePath in
      if \<not> strings_HasSuffix name ''.json'' then ''''
      else
        let parts = strings_Split name (CHR ''.'') in
        if length parts < 2 then ''''
        else parts ! (length parts - 2))"

text \<open>
  \<^verbatim>\<open>extractCollectionName\<close> of the second source file (\<^verbatim>\<open>part_000\<close>, lines 110
  to 123), which names its local variable \<^verbatim>\<open>filename\<close>.
\<close>

definition extractCollectionName_part_000 :: "string \<Rightarrow> string" where
  "extractCollectionName_part_000 filePath =
     (let filename = filepath_Base filePath in
      if \<not> strings_HasSuffix filename ''.json'' then ''''
      else
        let parts = strings_Split filename (CHR ''.'') in
        if length parts < 2 then ''''
        else parts ! (length parts - 2))"

subsection \<open>Splitting\<close>

lemma strings_Split_nonempty: "strings_Split s sep \<noteq> []"
  by (induction s) (auto split: list.splits)

lemma strings_Split_no_sep: "sep \<notin> set s \<Longrightarrow> strings_Split s sep = [s]"
  by (induction s) auto

lemma strings_Split_append:
  "strings_Split (a @ sep # b) sep = strings_Split a sep @ strings_Split b sep"
proof (induction a)
  case Nil
  show ?case by simp
next
  case (Cons c a)
  obtain p ps where ps: "strings_Split a sep = p # ps"
    using strings_Split_nonempty [of a sep] by (cases "strings_Split a sep") auto
  obtain q qs where qs: "strings_Split (a @ sep # b) sep = q # qs"
    using strings_Split_nonempty [of "a @ sep # b" sep]
    by (cases "strings_Split (a @ sep # b) sep") auto
  from Cons ps qs show ?case by auto
qed

lemma strings_HasSuffix_append: "strings_HasSuffix (a @ s) s"
  by (simp add: strings_HasSuffix_def)

lemma strings_HasSuffix_iff: "strings_HasSuffix s suf \<longleftrightarrow> (\<exists>a. s = a @ suf)"
proof
  assume "strings_HasSuffix s suf"
  then have "s = take (length s - length suf) s @ suf"
    by (metis append_take_drop_id strings_HasSuffix_def)
  then show "\<exists>a. s = a @ suf" ..
next
  assume "\<exists>a. s = a @ suf"
  then show "strings_HasSuffix s suf"
    by (auto simp: strings_HasSuffix_append)
qed

lemma extract_of_name:
  assumes base: "filepath_Base p = pre @ name @ ''.json''"
    and pre: "pre = [] \<or> (\<exists>a. pre = a @ ''.'')"
    and name: "CHR ''.'' \<notin> set name"
  shows "extractCollectionName p = name"
proof -
  have suf: "strings_HasSuffix (filepath_Base p) ''.json''"
    unfolding base using strings_HasSuffix_append [of "pre @ name" "''.json''"] by simp
  have json: "strings_Split ''json'' (CHR ''.'') = [''json'']"
    by simp
  have tail: "strings_Split (name @ ''.json'') (CHR ''.'') = [name, ''json'']"
    using strings_Split_append [of name "CHR ''.''" "''json''"] name
    by (simp add: strings_Split_no_sep)
  from pre have "\<exists>front. strings_Split (filepath_Base p) (CHR ''.'') = front @ [name, ''json'']"
  proof
    assume "pre = []"
    with base tail show ?thesis by simp
  next
    assume "\<exists>a. pre = a @ ''.''"
    then obtain a where a: "pre = a @ ''.''" ..
    have "strings_Split (a @ CHR ''.'' # (name @ ''.json'')) (CHR ''.'')
            = strings_Split a (CHR ''.'') @ [name, ''json'']"
      using strings_Split_append [of a "CHR ''.''" "name @ ''.json''"] tail by simp
    with base a show ?thesis by auto
  qed
  then obtain front where front:
    "strings_Split (filepath_Base p) (CHR ''.'') = front @ [name, ''json'']" ..
  have "(front @ [name, ''json'']) ! (length (front @ [name, ''json'']) - 2) = name"
    by (simp add: nth_append)
  with suf front show ?thesis
    by (simp add: extractCollectionName_def Let_def)
qed

lemma extract_no_suffix:
  "\<not> strings_HasSuffix (filepath_Base p) ''.json'' \<Longrightarrow> extractCollectionName p = ''''"
  by (simp add: extractCollectionName_def)

lemma filepath_Base_plain:
  "f \<noteq> [] \<Longrightarrow> CHR ''/'' \<notin> set f \<Longrightarrow> filepath_Base f = f"
proof -
  assume ne: "f \<noteq> []" and ns: "CHR ''/'' \<notin> set f"
  from ne have "rev f \<noteq> []" by simp
  then obtain c cs where rf: "rev f = c # cs" by (cases "rev f") auto
  with ns have c: "c \<noteq> CHR ''/''" by (metis list.set_intros(1) set_rev)
  have tw: "takeWhile (\<lambda>c. c \<noteq> CHR ''/'') (rev f) = rev f"
    using ns by (auto simp: takeWhile_eq_all_conv)
  from rf c have dw: "dropWhile (\<lambda>c. c = CHR ''/'') (rev f) = rev f" by simp
  show ?thesis using ne by (simp add: filepath_Base_def Let_def dw tw)
qed

lemma filepath_Base_dir:
  "f \<noteq> [] \<Longrightarrow> CHR ''/'' \<notin> set f \<Longrightarrow> filepath_Base (d @ ''/'' @ f) = f"
proof -
  assume ne: "f \<noteq> []" and ns: "CHR ''/'' \<notin> set f"
  from ne have "rev f \<noteq> []" by simp
  then obtain c cs where rf: "rev f = c # cs" by (cases "rev f") auto
  with ns have c: "c \<noteq> CHR ''/''" by (metis list.set_intros(1) set_rev)
  from rf c have dw: "dropWhile (\<lambda>c. c = CHR ''/'') (rev f @ CHR ''/'' # rev d)
      = rev f @ CHR ''/'' # rev d" by simp
  have tw: "takeWhile (\<lambda>c. c \<noteq> CHR ''/'') (rev f @ CHR ''/'' # rev d) = rev f"
    using ns by (auto simp: takeWhile_append takeWhile_eq_all_conv)
  show ?thesis using ne by (simp add: filepath_Base_def Let_def dw tw)
qed

subsection \<open>The name of the collection\<close>

text \<open>
  Claim C2. The file name of a path is its last element, \<open>filepath_Base p\<close>. When the
  file name is \<open><name>.json\<close> or \<open><anything>.<name>.json\<close>, where \<open><name>\<close> is a
  segment (it holds no dot), \<^verbatim>\<open>extractCollectionName\<close> returns \<open><name>\<close>. When the
  file name does not end in \<open>.json\<close> (bytes are compared, so the case matters), and
  when it is exactly \<open>.json\<close>, the result is the empty string.
\<close>

theorem extractCollectionName_name:
  "(CHR ''.'' \<notin> set name \<longrightarrow>
      (filepath_Base p = name @ ''.json'' \<or> filepath_Base p = pre @ ''.'' @ name @ ''.json'') \<longrightarrow>
      extractCollectionName p = name) \<and>
   ((\<forall>a. filepath_Base p \<noteq> a @ ''.json'') \<longrightarrow> extractCollectionName p = []) \<and>
   (filepath_Base p = ''.json'' \<longrightarrow> extractCollectionName p = [])"
proof (intro conjI impI)
  assume name: "CHR ''.'' \<notin> set name"
    and base: "filepath_Base p = name @ ''.json'' \<or> filepath_Base p = pre @ ''.'' @ name @ ''.json''"
  from base show "extractCollectionName p = name"
  proof
    assume "filepath_Base p = name @ ''.json''"
    with name show ?thesis using extract_of_name [of p "[]" name] by simp
  next
    assume "filepath_Base p = pre @ ''.'' @ name @ ''.json''"
    with name show ?thesis using extract_of_name [of p "pre @ ''.''" name] by simp
  qed
next
  assume "\<forall>a. filepath_Base p \<noteq> a @ ''.json''"
  then have "\<not> strings_HasSuffix (filepath_Base p) ''.json''"
    by (simp add: strings_HasSuffix_iff)
  then show "extractCollectionName p = []" by (rule extract_no_suffix)
next
  assume "filepath_Base p = ''.json''"
  then show "extractCollectionName p = []" using extract_of_name [of p "[]" "[]"] by simp
qed

theorem extractCollectionName_name_witness:
  "extractCollectionName ''/data/orders.v2.json'' = ''v2'' \<and>
   extractCollectionName ''users.json'' = ''users'' \<and>
   extractCollectionName ''/data/notes.txt'' = [] \<and>
   extractCollectionName ''/data/users.JSON'' = [] \<and>
   extractCollectionName ''/data/.json'' = []"
proof -
  have lower: "\<forall>a. filepath_Base ''/data/notes.txt'' \<noteq> a @ ''.json''"
    using strings_HasSuffix_iff [of "filepath_Base ''/data/notes.txt''" "''.json''"]
    by (simp add: strings_HasSuffix_def filepath_Base_def)
  have upper: "\<forall>a. filepath_Base ''/data/users.JSON'' \<noteq> a @ ''.json''"
    using strings_HasSuffix_iff [of "filepath_Base ''/data/users.JSON''" "''.json''"]
    by (simp add: strings_HasSuffix_def filepath_Base_def)
  have "extractCollectionName ''/data/orders.v2.json'' = ''v2''"
    using extractCollectionName_name [of "''v2''" "''/data/orders.v2.json''" "''orders''"]
    by (simp add: filepath_Base_def)
  moreover have "extractCollectionName ''users.json'' = ''users''"
    using extractCollectionName_name [of "''users''" "''users.json''" "[]"]
    by (simp add: filepath_Base_def)
  moreover have "extractCollectionName ''/data/notes.txt'' = []"
    using extractCollectionName_name [of "[]" "''/data/notes.txt''" "[]"] lower by blast
  moreover have "extractCollectionName ''/data/users.JSON'' = []"
    using extractCollectionName_name [of "[]" "''/data/users.JSON''" "[]"] upper by blast
  moreover have "extractCollectionName ''/data/.json'' = []"
    using extractCollectionName_name [of "[]" "''/data/.json''" "[]"]
    by (simp add: filepath_Base_def)
  ultimately show ?thesis by simp
qed

text \<open>
  Claim C9. The two source files define \<^verbatim>\<open>extractCollectionName\<close> with the same
  body: on every path the two functions return the same string.
\<close>

theorem extractCollectionName_same:
  "extractCollectionName_part_000 filePath = extractCollectionName filePath"
  by (simp add: extractCollectionName_part_000_def extractCollectionName_def)

section \<open>White space\<close>

text \<open>
  \<^verbatim>\<open>unicode.IsSpace\<close> holds for the runes U+0009 to U+000D, U+0020, U+0085, U+00A0,
  U+1680, U+2000 to U+200A, U+2028, U+2029, U+202F, U+205F and U+3000. A byte
  sequence decodes (\<^verbatim>\<open>utf8.DecodeRune\<close>) to one of them exactly when it is one of
  the encodings below; an invalid or overlong sequence decodes to U+FFFD, which is not
  white space.
\<close>

definition spaceRunes :: "string list" where
  "spaceRunes =
     [[CHR 0x09], [CHR 0x0A], [CHR 0x0B], [CHR 0x0C], [CHR 0x0D], [CHR 0x20],
      [CHR 0xC2, CHR 0x85], [CHR 0xC2, CHR 0xA0],
      [CHR 0xE1, CHR 0x9A, CHR 0x80],
      [CHR 0xE2, CHR 0x80, CHR 0x80], [CHR 0xE2, CHR 0x80, CHR 0x81],
      [CHR 0xE2, CHR 0x80, CHR 0x82], [CHR 0xE2, CHR 0x80, CHR 0x83],
      [CHR 0xE2, CHR 0x80, CHR 0x84], [CHR 0xE2, CHR 0x80, CHR 0x85],
      [CHR 0xE2, CHR 0x80, CHR 0x86], [CHR 0xE2, CHR 0x80, CHR 0x87],
      [CHR 0xE2, CHR 0x80, CHR 0x88], [CHR 0xE2, CHR 0x80, CHR 0x89],
      [CHR 0xE2, CHR 0x80, CHR 0x8A],
      [CHR 0xE2, CHR 0x80, CHR 0xA8], [CHR 0xE2, CHR 0x80, CHR 0xA9],
      [CHR 0xE2, CHR 0x80, CHR 0xAF],
      [CHR 0xE2, CHR 0x81, CHR 0x9F],
      [CHR 0xE3, CHR 0x80, CHR 0x80]]"

text \<open>
  The number of bytes of the white-space rune that \<open>s\<close> starts with (ends with), and
  0 when \<open>s\<close> does not start (end) with one: what \<^verbatim>\<open>utf8.DecodeRune\<close>
  (\<^verbatim>\<open>utf8.DecodeLastRune\<close>) and \<^verbatim>\<open>unicode.IsSpace\<close> find together.
\<close>

definition leadingSpace :: "string \<Rightarrow> nat" where
  "leadingSpace s =
     (case find (\<lambda>e. take (length e) s = e) spaceRunes of
        None \<Rightarrow> 0
      | Some e \<Rightarrow> length e)"

definition trailingSpace :: "string \<Rightarrow> nat" where
  "trailingSpace s =
     (case find (\<lambda>e. length e \<le> length s \<and> drop (length s - length e) s = e) spaceRunes of
        None \<Rightarrow> 0
      | Some e \<Rightarrow> length e)"

lemma spaceRunes_nonempty: "e \<in> set spaceRunes \<Longrightarrow> e \<noteq> []"
  by (auto simp: spaceRunes_def)

lemma spaceRunes_length: "e \<in> set spaceRunes \<Longrightarrow> 0 < length e \<and> length e \<le> 3"
  by (auto simp: spaceRunes_def)

lemma leadingSpace_less: "0 < leadingSpace s \<Longrightarrow> length s - leadingSpace s < length s"
proof -
  assume pos: "0 < leadingSpace s"
  then obtain e where f: "find (\<lambda>e. take (length e) s = e) spaceRunes = Some e"
    and l: "leadingSpace s = length e"
    by (auto simp: leadingSpace_def split: option.splits)
  from f have "e \<in> set spaceRunes" and "take (length e) s = e"
    by (auto simp: find_Some_iff)
  with spaceRunes_nonempty [of e] have "s \<noteq> []" by auto
  with pos show ?thesis by simp
qed

lemma trailingSpace_less:
  "0 < trailingSpace s \<Longrightarrow> length s - trailingSpace s < length s"
proof -
  assume pos: "0 < trailingSpace s"
  then obtain e where
    f: "find (\<lambda>e. length e \<le> length s \<and> drop (length s - length e) s = e) spaceRunes = Some e"
    and l: "trailingSpace s = length e"
    by (auto simp: trailingSpace_def split: option.splits)
  from f have "e \<in> set spaceRunes" and "length e \<le> length s"
    by (auto simp: find_Some_iff)
  with spaceRunes_nonempty [of e] have "s \<noteq> []" by auto
  with pos show ?thesis by simp
qed

text \<open>
  \<^verbatim>\<open>TrimLeftFunc(s, unicode.IsSpace)\<close> and \<^verbatim>\<open>TrimRightFunc(s, unicode.IsSpace)\<close>:
  white-space runes are cut from the start (the end) until the first (last) rune is
  not white space.
\<close>

function TrimLeftSpace :: "string \<Rightarrow> string" where
  "TrimLeftSpace s =
     (if leadingSpace s = 0 then s else TrimLeftSpace (drop (leadingSpace s) s))"
  by pat_completeness auto
termination
  by (relation "measure length") (auto simp: leadingSpace_less)

function TrimRightSpace :: "string \<Rightarrow> string" where
  "TrimRightSpace s =
     (if trailingSpace s = 0 then s
      else TrimRightSpace (take (length s - trailingSpace s) s))"
  by pat_completeness auto
termination
  by (relation "measure length") (auto simp: trailingSpace_less)

declare TrimLeftSpace.simps [simp del]
declare TrimRightSpace.simps [simp del]

text \<open>
  \<^verbatim>\<open>bytes.TrimSpace\<close> and \<^verbatim>\<open>strings.TrimSpace\<close>: both slice off all leading and
  trailing white space as Unicode defines it, the left end first. (Their loops over
  ASCII bytes are a fast path of \<^verbatim>\<open>TrimFunc(s, unicode.IsSpace)\<close>; the nil slice
  that \<^verbatim>\<open>bytes.TrimSpace\<close> returns for white space only is the empty list here.)
\<close>

definition bytes_TrimSpace :: "string \<Rightarrow> string" where
  "bytes_TrimSpace s = TrimRightSpace (TrimLeftSpace s)"

definition strings_TrimSpace :: "string \<Rightarrow> string" where
  "strings_TrimSpace s = TrimRightSpace (TrimLeftSpace s)"

text \<open>
  A byte sequence that consists of white space only: it is empty, or it starts with
  a white-space rune and the rest consists of white space only.
\<close>

function space_only :: "string \<Rightarrow> bool" where
  "space_only s =
     (if s = [] then True
      else if leadingSpace s = 0 then False
      else space_only (drop (leadingSpace s) s))"
  by pat_completeness auto
termination
  by (relation "measure length") (auto simp: leadingSpace_less)

declare space_only.simps [simp del]

subsection \<open>Trimming cuts white space, and all of it\<close>

lemma leadingSpace_all: "list_all (\<lambda>e. leadingSpace (e @ s) = length e) spaceRunes"
  by (simp add: leadingSpace_def spaceRunes_def)

lemma leadingSpace_rune: "e \<in> set spaceRunes \<Longrightarrow> leadingSpace (e @ s) = length e"
  using leadingSpace_all [of s] by (simp add: list_all_iff)

lemma trailingSpace_all: "list_all (\<lambda>e. trailingSpace (s @ e) = length e) spaceRunes"
  by (simp add: trailingSpace_def spaceRunes_def)

lemma trailingSpace_rune: "e \<in> set spaceRunes \<Longrightarrow> trailingSpace (s @ e) = length e"
  using trailingSpace_all [of s] by (simp add: list_all_iff)

lemma leadingSpace_Nil: "leadingSpace [] = 0"
  by (simp add: leadingSpace_def spaceRunes_def)

lemma trailingSpace_Nil: "trailingSpace [] = 0"
  by (simp add: trailingSpace_def spaceRunes_def)

lemma leadingSpace_pos:
  assumes "0 < leadingSpace s"
  obtains e where "e \<in> set spaceRunes" and "leadingSpace s = length e"
    and "s = e @ drop (leadingSpace s) s"
proof -
  from assms obtain e where f: "find (\<lambda>e. take (length e) s = e) spaceRunes = Some e"
    and l: "leadingSpace s = length e"
    by (auto simp: leadingSpace_def split: option.splits)
  from f have e: "e \<in> set spaceRunes" and t: "take (length e) s = e"
    by (auto simp: find_Some_iff)
  from t l have "s = e @ drop (leadingSpace s) s"
    by (metis append_take_drop_id)
  with e l show ?thesis by (rule that)
qed

lemma trailingSpace_pos:
  assumes "0 < trailingSpace s"
  obtains e where "e \<in> set spaceRunes" and "trailingSpace s = length e"
    and "s = take (length s - trailingSpace s) s @ e"
proof -
  from assms obtain e where
    f: "find (\<lambda>e. length e \<le> length s \<and> drop (length s - length e) s = e) spaceRunes = Some e"
    and l: "trailingSpace s = length e"
    by (auto simp: trailingSpace_def split: option.splits)
  from f have e: "e \<in> set spaceRunes" and t: "drop (length s - length e) s = e"
    by (auto simp: find_Some_iff)
  from t l have "s = take (length s - trailingSpace s) s @ e"
    by (metis append_take_drop_id)
  with e l show ?thesis by (rule that)
qed

lemma space_only_Nil: "space_only []"
  by (simp add: space_only.simps)

lemma space_only_rune:
  assumes e: "e \<in> set spaceRunes" and s: "space_only s"
  shows "space_only (e @ s)"
proof -
  from e have "e \<noteq> []" by (rule spaceRunes_nonempty)
  with s show ?thesis
    by (subst space_only.simps) (simp add: leadingSpace_rune [OF e])
qed

lemma space_only_induct [consumes 1, case_names Nil rune]:
  assumes w: "space_only w"
    and nil: "P []"
    and rune: "\<And>e s. e \<in> set spaceRunes \<Longrightarrow> space_only s \<Longrightarrow> P s \<Longrightarrow> P (e @ s)"
  shows "P w"
  using w
proof (induction w rule: space_only.induct)
  case (1 s)
  show ?case
  proof (cases "s = []")
    case True
    with nil show ?thesis by simp
  next
    case False
    with "1.prems" have pos: "0 < leadingSpace s"
      and rest: "space_only (drop (leadingSpace s) s)"
      by (subst (asm) space_only.simps, simp split: if_splits)+
    from pos obtain e where e: "e \<in> set spaceRunes"
      and s: "s = e @ drop (leadingSpace s) s"
      by (rule leadingSpace_pos)
    from False pos rest have "P (drop (leadingSpace s) s)" by (intro "1.IH") simp_all
    with e rest have "P (e @ drop (leadingSpace s) s)" by (rule rune)
    with s show ?thesis by simp
  qed
qed

lemma leadingSpace_zero:
  "leadingSpace s = 0 \<Longrightarrow> e \<in> set spaceRunes \<Longrightarrow> take (length e) s \<noteq> e"
proof
  assume z: "leadingSpace s = 0" and e: "e \<in> set spaceRunes" and t: "take (length e) s = e"
  from t have "s = e @ drop (length e) s" by (metis append_take_drop_id)
  with leadingSpace_rune [OF e, of "drop (length e) s"] have "leadingSpace s = length e"
    by simp
  with z spaceRunes_nonempty [OF e] show False by simp
qed

lemma trailingSpace_zero:
  "trailingSpace s = 0 \<Longrightarrow> e \<in> set spaceRunes \<Longrightarrow> s \<noteq> a @ e"
proof
  assume z: "trailingSpace s = 0" and e: "e \<in> set spaceRunes" and t: "s = a @ e"
  with trailingSpace_rune [OF e, of a] have "trailingSpace s = length e" by simp
  with z spaceRunes_nonempty [OF e] show False by simp
qed

lemma TrimLeftSpace_id: "leadingSpace s = 0 \<Longrightarrow> TrimLeftSpace s = s"
  by (simp add: TrimLeftSpace.simps)

lemma TrimRightSpace_id: "trailingSpace s = 0 \<Longrightarrow> TrimRightSpace s = s"
  by (simp add: TrimRightSpace.simps)

lemma TrimLeftSpace_rune:
  "e \<in> set spaceRunes \<Longrightarrow> TrimLeftSpace (e @ s) = TrimLeftSpace s"
  using spaceRunes_nonempty [of e]
  by (subst TrimLeftSpace.simps) (simp add: leadingSpace_rune)

lemma TrimRightSpace_rune:
  "e \<in> set spaceRunes \<Longrightarrow> TrimRightSpace (s @ e) = TrimRightSpace s"
  using spaceRunes_nonempty [of e]
  by (subst TrimRightSpace.simps) (simp add: trailingSpace_rune)

lemma space_only_append: "space_only a \<Longrightarrow> space_only b \<Longrightarrow> space_only (a @ b)"
proof (induction a rule: space_only_induct)
  case Nil
  then show ?case by simp
next
  case (rune e s)
  from rune.hyps(1) rune.IH [OF rune.prems]
  have "space_only (e @ (s @ b))" by (rule space_only_rune)
  then show ?case by simp
qed

lemma space_only_single: "e \<in> set spaceRunes \<Longrightarrow> space_only e"
  using space_only_rune [of e "[]"] space_only_Nil by simp

lemma TrimLeftSpace_space_only:
  "space_only w \<Longrightarrow> TrimLeftSpace (w @ s) = TrimLeftSpace s"
  by (induction w rule: space_only_induct) (simp_all add: TrimLeftSpace_rune)

lemma TrimRightSpace_space_only:
  "space_only w \<Longrightarrow> TrimRightSpace (s @ w) = TrimRightSpace s"
proof (induction w arbitrary: s rule: space_only_induct)
  case Nil
  show ?case by simp
next
  case (rune e w)
  have "TrimRightSpace ((s @ e) @ w) = TrimRightSpace (s @ e)"
    by (rule rune.IH)
  with rune.hyps show ?case by (simp add: TrimRightSpace_rune)
qed

lemma TrimLeftSpace_decomp: "\<exists>w. space_only w \<and> s = w @ TrimLeftSpace s"
proof (induction s rule: TrimLeftSpace.induct)
  case (1 s)
  show ?case
  proof (cases "leadingSpace s = 0")
    case True
    then have "s = [] @ TrimLeftSpace s" by (simp add: TrimLeftSpace_id)
    with space_only_Nil show ?thesis by blast
  next
    case False
    then have pos: "0 < leadingSpace s" by simp
    then obtain e where e: "e \<in> set spaceRunes" and s: "s = e @ drop (leadingSpace s) s"
      by (rule leadingSpace_pos)
    from 1 False obtain w where w: "space_only w"
      and d: "drop (leadingSpace s) s = w @ TrimLeftSpace (drop (leadingSpace s) s)"
      by blast
    have t: "TrimLeftSpace s = TrimLeftSpace (drop (leadingSpace s) s)"
      using False by (subst TrimLeftSpace.simps) simp
    have "s = (e @ w) @ TrimLeftSpace s"
      using s d t by (metis append.assoc)
    moreover have "space_only (e @ w)" using e w by (rule space_only_rune)
    ultimately show ?thesis by blast
  qed
qed

lemma TrimRightSpace_decomp: "\<exists>w. space_only w \<and> s = TrimRightSpace s @ w"
proof (induction s rule: TrimRightSpace.induct)
  case (1 s)
  show ?case
  proof (cases "trailingSpace s = 0")
    case True
    then have "s = TrimRightSpace s @ []" by (simp add: TrimRightSpace_id)
    with space_only_Nil show ?thesis by blast
  next
    case False
    let ?r = "take (length s - trailingSpace s) s"
    from False have pos: "0 < trailingSpace s" by simp
    then obtain e where e: "e \<in> set spaceRunes" and s: "s = ?r @ e"
      by (rule trailingSpace_pos)
    from 1 False obtain w where w: "space_only w" and d: "?r = TrimRightSpace ?r @ w"
      by blast
    have t: "TrimRightSpace s = TrimRightSpace ?r"
      using False by (subst TrimRightSpace.simps) simp
    have "s = TrimRightSpace s @ (w @ e)"
      using s d t by (metis append.assoc)
    moreover have "space_only (w @ e)"
      using w e by (simp add: space_only_append space_only_single)
    ultimately show ?thesis by blast
  qed
qed

lemma leadingSpace_TrimLeftSpace: "leadingSpace (TrimLeftSpace s) = 0"
proof (induction s rule: TrimLeftSpace.induct)
  case (1 s)
  show ?case
  proof (cases "leadingSpace s = 0")
    case True
    then show ?thesis by (simp add: TrimLeftSpace_id)
  next
    case False
    have "TrimLeftSpace s = TrimLeftSpace (drop (leadingSpace s) s)"
      using False by (subst TrimLeftSpace.simps) simp
    with 1 False show ?thesis by simp
  qed
qed

lemma trailingSpace_TrimRightSpace: "trailingSpace (TrimRightSpace s) = 0"
proof (induction s rule: TrimRightSpace.induct)
  case (1 s)
  show ?case
  proof (cases "trailingSpace s = 0")
    case True
    then show ?thesis by (simp add: TrimRightSpace_id)
  next
    case False
    have "TrimRightSpace s = TrimRightSpace (take (length s - trailingSpace s) s)"
      using False by (subst TrimRightSpace.simps) simp
    with 1 False show ?thesis by simp
  qed
qed

lemma bytes_TrimSpace_space_only: "space_only s \<Longrightarrow> bytes_TrimSpace s = []"
proof -
  assume "space_only s"
  then have "TrimLeftSpace (s @ []) = TrimLeftSpace []" by (rule TrimLeftSpace_space_only)
  then show ?thesis
    by (simp add: bytes_TrimSpace_def TrimLeftSpace_id TrimRightSpace_id
        leadingSpace_Nil trailingSpace_Nil)
qed

section \<open>The line scanner\<close>

text \<open>
  \<^verbatim>\<open>bufio.Scanner\<close> over a \<^verbatim>\<open>bytes.Reader\<close>, with the default split function
  \<^verbatim>\<open>bufio.ScanLines\<close> and the default buffer. The buffer grows up to
  \<^verbatim>\<open>bufio.MaxScanTokenSize = 64 * 1024\<close> bytes and must hold a line together with
  its newline, or a last line without newline and one free byte to read the end of
  input into: when the next 65536 bytes hold no newline, \<^verbatim>\<open>Scan\<close> stops with
  \<^verbatim>\<open>bufio.ErrTooLong\<close>. The state keeps the input not yet consumed, the last token
  and the error.
\<close>

datatype scan_error = ErrTooLong

record Scanner =
  input :: string
  token :: string
  err :: "scan_error option"

definition MaxScanTokenSize :: nat where
  "MaxScanTokenSize = 64 * 1024"

definition bufio_NewScanner :: "string \<Rightarrow> Scanner" where
  "bufio_NewScanner data = \<lparr>input = data, token = [], err = None\<rparr>"

text \<open>\<^verbatim>\<open>dropCR\<close>: the line without one trailing carriage return.\<close>

definition dropCR :: "string \<Rightarrow> string" where
  "dropCR data = (if data \<noteq> [] \<and> last data = CHR 0x0D then butlast data else data)"

text \<open>
  \<^verbatim>\<open>Scan\<close> advances to the next line: the bytes before the next newline (or to the
  end of input when there is none), without the newline and a trailing carriage
  return. At the end of input it returns false. (The importer never calls
  \<^verbatim>\<open>Scan\<close> again once it has returned false.)
\<close>

definition Scan :: "Scanner \<Rightarrow> bool \<times> Scanner" where
  "Scan sc =
     (if input sc = [] then (False, sc\<lparr>token := []\<rparr>)
      else
        let line = takeWhile (\<lambda>c. c \<noteq> CHR 0x0A) (input sc);
            rest = dropWhile (\<lambda>c. c \<noteq> CHR 0x0A) (input sc)
        in if MaxScanTokenSize \<le> length line
           then (False, sc\<lparr>input := [], token := [], err := Some ErrTooLong\<rparr>)
           else (True, sc\<lparr>input := drop 1 rest, token := dropCR line\<rparr>))"

definition Text :: "Scanner \<Rightarrow> string" where
  "Text sc = token sc"

definition Err :: "Scanner \<Rightarrow> scan_error option" where
  "Err sc = err sc"

lemma Scan_shorter:
  "Scan sc = (True, sc') \<Longrightarrow> length (input sc') < length (input sc)"
proof -
  assume a: "Scan sc = (True, sc')"
  let ?p = "\<lambda>c. c \<noteq> CHR 0x0A"
  from a have ne: "input sc \<noteq> []"
    by (auto simp: Scan_def Let_def split: if_splits)
  from a have i: "input sc' = drop 1 (dropWhile ?p (input sc))"
    by (auto simp: Scan_def Let_def split: if_splits)
  have le: "length (dropWhile ?p (input sc)) \<le> length (input sc)"
    by (rule length_dropWhile_le)
  show ?thesis
  proof (cases "dropWhile ?p (input sc)")
    case Nil
    with i ne show ?thesis by simp
  next
    case (Cons c cs)
    with i le show ?thesis by simp
  qed
qed

section \<open>The record parser\<close>

text \<open>
  \<^verbatim>\<open>bson.UnmarshalExtJSON(data, canonical, val)\<close> belongs to the database driver,
  not to the importer: it is a parameter of the model, once for each type of
  \<open>val\<close> the importer passes (\<^verbatim>\<open>*[]bson.M\<close> and \<^verbatim>\<open>*bson.M\<close>). The second
  argument is the boolean the call site passes; \<open>'e\<close> is the driver's error and
  \<open>'m\<close> a decoded document.
\<close>

record ('e, 'm) bson =
  UnmarshalExtJSON_array :: "string \<Rightarrow> bool \<Rightarrow> 'e + 'm list"
  UnmarshalExtJSON_doc :: "string \<Rightarrow> bool \<Rightarrow> 'e + 'm"

text \<open>The three errors \<^verbatim>\<open>parseExtendedJSON\<close> returns (lines 113, 131 and 136).\<close>

datatype 'e parse_error =
  FailedArray 'e
  | FailedLine 'e
  | FailedScan scan_error

text \<open>
  The loop of lines 123 to 138 over the scanner, with the documents appended so far.
  The result is the pair that the function returns: the documents and the error.
\<close>

function scanLoop ::
  "('e, 'm) bson \<Rightarrow> Scanner \<Rightarrow> 'm list \<Rightarrow> 'm list \<times> 'e parse_error option" where
  "scanLoop lib sc docs =
     (case Scan sc of
        (False, sc') \<Rightarrow>
          (case Err sc' of
             Some e \<Rightarrow> ([], Some (FailedScan e))
           | None \<Rightarrow> (docs, None))
      | (True, sc') \<Rightarrow>
          (let line = strings_TrimSpace (Text sc') in
           if line = [] then scanLoop lib sc' docs
           else
             (case UnmarshalExtJSON_doc lib line False of
                Inl e \<Rightarrow> ([], Some (FailedLine e))
              | Inr m \<Rightarrow> scanLoop lib sc' (docs @ [m]))))"
  by pat_completeness auto
termination
  by (relation "measure (\<lambda>(lib, sc, docs). length (input sc))")
     (auto simp: Scan_shorter)

declare scanLoop.simps [simp del]

text \<open>\<^verbatim>\<open>parseExtendedJSON\<close>, lines 100 to 139.\<close>

definition parseExtendedJSON ::
  "('e, 'm) bson \<Rightarrow> string \<Rightarrow> 'm list \<times> 'e parse_error option" where
  "parseExtendedJSON lib data0 =
     (let data = bytes_TrimSpace data0 in
      if length data = 0 then ([], None)
      else if hd data = CHR ''['' then
        (case UnmarshalExtJSON_array lib data False of
           Inl e \<Rightarrow> ([], Some (FailedArray e))
         | Inr arr \<Rightarrow> (foldl (\<lambda>docs m. docs @ [m]) [] arr, None))
      else scanLoop lib (bufio_NewScanner data) [])"

section \<open>Lines and white space\<close>

text \<open>
  The first bytes of the encodings of the white-space runes. No other byte of an
  encoding is one of them, so a white-space rune cannot start inside another.
\<close>

definition leadByte :: "char \<Rightarrow> bool" where
  "leadByte c = (c \<in> set (map hd spaceRunes))"

lemma spaceRunes_bytes_all:
  "list_all (\<lambda>e. e \<noteq> [] \<and> leadByte (hd e) \<and> list_all (\<lambda>c. \<not> leadByte c) (tl e)) spaceRunes"
  by (simp add: leadByte_def spaceRunes_def)

lemma spaceRunes_lead: "e \<in> set spaceRunes \<Longrightarrow> leadByte (hd e)"
  using spaceRunes_bytes_all by (simp add: list_all_iff)

lemma spaceRunes_tail: "e \<in> set spaceRunes \<Longrightarrow> c \<in> set (tl e) \<Longrightarrow> \<not> leadByte c"
  using spaceRunes_bytes_all by (simp add: list_all_iff)

lemma leadingSpace_append_rune:
  assumes ne: "s \<noteq> []" and z: "leadingSpace s = 0" and e: "e \<in> set spaceRunes"
  shows "leadingSpace (s @ e @ t) = 0"
proof (rule ccontr)
  assume "leadingSpace (s @ e @ t) \<noteq> 0"
  then have "0 < leadingSpace (s @ e @ t)" by simp
  then obtain r where r: "r \<in> set spaceRunes"
    and eq: "s @ e @ t = r @ drop (leadingSpace (s @ e @ t)) (s @ e @ t)"
    by (rule leadingSpace_pos)
  from eq have tk: "take (length r) (s @ e @ t) = r"
    by (metis append_eq_conv_conj)
  show False
  proof (cases "length r \<le> length s")
    case True
    with tk have "take (length r) s = r" by simp
    with leadingSpace_zero [OF z r] show False by simp
  next
    case False
    then have lt: "length s < length r" by simp
    from e have ene: "e \<noteq> []" by (rule spaceRunes_nonempty)
    from tk lt have "r ! length s = (s @ e @ t) ! length s"
      by (metis nth_take)
    also have "\<dots> = hd e" using ene by (simp add: nth_append hd_conv_nth)
    finally have "r ! length s = hd e" .
    moreover have "r ! length s \<in> set (tl r)"
    proof (cases r)
      case Nil
      with lt show ?thesis by simp
    next
      case (Cons a list)
      from ne obtain x xs where s: "s = x # xs" by (cases s) auto
      with lt Cons have "length xs < length list" by simp
      then have "list ! length xs \<in> set list" by (rule nth_mem)
      with Cons s show ?thesis by simp
    qed
    ultimately have "hd e \<in> set (tl r)" by simp
    with spaceRunes_tail [OF r] spaceRunes_lead [OF e] show False by blast
  qed
qed


lemma strings_TrimSpace_left:
  "space_only w \<Longrightarrow> strings_TrimSpace (w @ s) = strings_TrimSpace s"
  by (simp add: strings_TrimSpace_def TrimLeftSpace_space_only)

lemma strings_TrimSpace_rune_right:
  assumes e: "e \<in> set spaceRunes"
  shows "strings_TrimSpace (s @ e) = strings_TrimSpace s"
proof -
  obtain w where w: "space_only w" and s: "s = w @ TrimLeftSpace s"
    using TrimLeftSpace_decomp by blast
  have z: "leadingSpace (TrimLeftSpace s) = 0" by (rule leadingSpace_TrimLeftSpace)
  have "TrimLeftSpace (s @ e) = TrimLeftSpace (w @ (TrimLeftSpace s @ e))"
    using s by (metis append.assoc)
  also have "\<dots> = TrimLeftSpace (TrimLeftSpace s @ e)"
    using w by (rule TrimLeftSpace_space_only)
  finally have step: "TrimLeftSpace (s @ e) = TrimLeftSpace (TrimLeftSpace s @ e)" .
  show ?thesis
  proof (cases "TrimLeftSpace s = []")
    case True
    have "TrimLeftSpace (e @ []) = TrimLeftSpace []" using e by (rule TrimLeftSpace_rune)
    then have "TrimLeftSpace e = []" by (simp add: TrimLeftSpace_id leadingSpace_Nil)
    with step True show ?thesis by (simp add: strings_TrimSpace_def)
  next
    case False
    from leadingSpace_append_rune [OF False z e, of "[]"]
    have "leadingSpace (TrimLeftSpace s @ e) = 0" by simp
    then have "TrimLeftSpace (TrimLeftSpace s @ e) = TrimLeftSpace s @ e"
      by (rule TrimLeftSpace_id)
    with step have "TrimLeftSpace (s @ e) = TrimLeftSpace s @ e" by simp
    then show ?thesis using e by (simp add: strings_TrimSpace_def TrimRightSpace_rune)
  qed
qed

lemma strings_TrimSpace_right:
  "space_only w \<Longrightarrow> strings_TrimSpace (s @ w) = strings_TrimSpace s"
proof (induction w arbitrary: s rule: space_only_induct)
  case Nil
  show ?case by simp
next
  case (rune e w)
  have "strings_TrimSpace ((s @ e) @ w) = strings_TrimSpace (s @ e)"
    by (rule rune.IH)
  with rune.hyps show ?case by (simp add: strings_TrimSpace_rune_right)
qed

lemma strings_TrimSpace_Nil: "strings_TrimSpace [] = []"
  by (simp add: strings_TrimSpace_def TrimLeftSpace_id TrimRightSpace_id
      leadingSpace_Nil trailingSpace_Nil)

lemma strings_TrimSpace_space_only: "space_only w \<Longrightarrow> strings_TrimSpace w = []"
  using strings_TrimSpace_left [of w "[]"] by (simp add: strings_TrimSpace_Nil)

lemma CR_rune: "[CHR 0x0D] \<in> set spaceRunes"
  by (simp add: spaceRunes_def)

lemma strings_TrimSpace_dropCR: "strings_TrimSpace (dropCR l) = strings_TrimSpace l"
proof (cases "l \<noteq> [] \<and> last l = CHR 0x0D")
  case True
  then have "l = butlast l @ [CHR 0x0D]" by (metis append_butlast_last_id)
  then have "strings_TrimSpace l = strings_TrimSpace (butlast l @ [CHR 0x0D])" by simp
  also have "\<dots> = strings_TrimSpace (butlast l)"
    using CR_rune by (rule strings_TrimSpace_rune_right)
  finally show ?thesis using True by (simp add: dropCR_def)
next
  case False
  then show ?thesis by (auto simp: dropCR_def)
qed

subsection \<open>Lines\<close>

lemma strings_Split_unfold:
  "strings_Split s c =
     takeWhile (\<lambda>x. x \<noteq> c) s #
       (case dropWhile (\<lambda>x. x \<noteq> c) s of [] \<Rightarrow> [] | y # r \<Rightarrow> strings_Split r c)"
proof (induction s)
  case Nil
  show ?case by simp
next
  case (Cons x s)
  obtain p ps where ps: "strings_Split s c = p # ps"
    using strings_Split_nonempty [of s c] by (cases "strings_Split s c") auto
  with Cons show ?case by auto
qed

lemma strings_Split_prepend:
  "c \<notin> set a \<Longrightarrow>
   strings_Split (a @ s) c = (a @ hd (strings_Split s c)) # tl (strings_Split s c)"
proof (induction a)
  case Nil
  then show ?case using strings_Split_nonempty [of s c] by simp
next
  case (Cons x a)
  then show ?case by (auto split: list.splits)
qed

lemma strings_Split_snoc:
  "c \<notin> set a \<Longrightarrow>
   strings_Split (s @ a) c = butlast (strings_Split s c) @ [last (strings_Split s c) @ a]"
proof (induction s)
  case Nil
  then show ?case by (simp add: strings_Split_no_sep)
next
  case (Cons x s)
  obtain p ps where ps: "strings_Split s c = p # ps"
    using strings_Split_nonempty [of s c] by (cases "strings_Split s c") auto
  obtain q qs where qs: "strings_Split (s @ a) c = q # qs"
    using strings_Split_nonempty [of "s @ a" c] by (cases "strings_Split (s @ a) c") auto
  from Cons ps qs show ?case by (auto split: if_splits)
qed


text \<open>
  The lines of a text are the substrings between its newlines; its non-blank lines
  are the trimmed lines that are not empty, in order.
\<close>

definition textLines :: "string \<Rightarrow> string list" where
  "textLines s = strings_Split s (CHR 0x0A)"

definition nonblankLines :: "string \<Rightarrow> string list" where
  "nonblankLines s = filter (\<lambda>l. l \<noteq> []) (map strings_TrimSpace (textLines s))"

text \<open>
  The loop of \<^verbatim>\<open>parseExtendedJSON\<close> as a recursion over the lines of the text: it
  is \<open>scanLoop\<close>, by \<open>scanLoop_decodeLines\<close> below.
\<close>

fun decodeLines ::
  "('e, 'm) bson \<Rightarrow> string list \<Rightarrow> 'm list \<Rightarrow> 'm list \<times> 'e parse_error option" where
  "decodeLines lib [] docs = (docs, None)"
| "decodeLines lib (l # ls) docs =
     (if MaxScanTokenSize \<le> length l then ([], Some (FailedScan ErrTooLong))
      else
        (let line = strings_TrimSpace (dropCR l) in
         if line = [] then decodeLines lib ls docs
         else
           (case UnmarshalExtJSON_doc lib line False of
              Inl e \<Rightarrow> ([], Some (FailedLine e))
            | Inr m \<Rightarrow> decodeLines lib ls (docs @ [m]))))"

lemma spaceRunes_newline_all:
  "list_all (\<lambda>e. e = [CHR 0x0A] \<or> CHR 0x0A \<notin> set e) spaceRunes"
  by (simp add: spaceRunes_def)

lemma spaceRunes_newline:
  "e \<in> set spaceRunes \<Longrightarrow> e = [CHR 0x0A] \<or> CHR 0x0A \<notin> set e"
  using spaceRunes_newline_all by (simp add: list_all_iff)

lemma nonblankLines_rune_left:
  assumes e: "e \<in> set spaceRunes"
  shows "nonblankLines (e @ s) = nonblankLines s"
proof -
  obtain p ps where ps: "strings_Split s (CHR 0x0A) = p # ps"
    using strings_Split_nonempty [of s "CHR 0x0A"]
    by (cases "strings_Split s (CHR 0x0A)") auto
  from spaceRunes_newline [OF e] show ?thesis
  proof
    assume "e = [CHR 0x0A]"
    then show ?thesis
      by (simp add: nonblankLines_def textLines_def strings_TrimSpace_Nil)
  next
    assume "CHR 0x0A \<notin> set e"
    then have "strings_Split (e @ s) (CHR 0x0A) = (e @ p) # ps"
      using ps by (simp add: strings_Split_prepend)
    moreover have "strings_TrimSpace (e @ p) = strings_TrimSpace p"
      using e by (simp add: strings_TrimSpace_left space_only_single)
    ultimately show ?thesis using ps
      by (simp add: nonblankLines_def textLines_def)
  qed
qed

lemma nonblankLines_rune_right:
  assumes e: "e \<in> set spaceRunes"
  shows "nonblankLines (s @ e) = nonblankLines s"
proof -
  let ?ls = "strings_Split s (CHR 0x0A)"
  have ne: "?ls \<noteq> []" by (rule strings_Split_nonempty)
  then have ls: "?ls = butlast ?ls @ [last ?ls]" by simp
  from spaceRunes_newline [OF e] show ?thesis
  proof
    assume "e = [CHR 0x0A]"
    then have "strings_Split (s @ e) (CHR 0x0A) = ?ls @ [[]]"
      using strings_Split_append [of s "CHR 0x0A" "[]"] by simp
    then show ?thesis
      by (simp add: nonblankLines_def textLines_def strings_TrimSpace_Nil)
  next
    assume "CHR 0x0A \<notin> set e"
    then have sp: "strings_Split (s @ e) (CHR 0x0A) = butlast ?ls @ [last ?ls @ e]"
      by (rule strings_Split_snoc)
    have tr: "strings_TrimSpace (last ?ls @ e) = strings_TrimSpace (last ?ls)"
      using e by (rule strings_TrimSpace_rune_right)
    have "nonblankLines (s @ e) =
        filter (\<lambda>l. l \<noteq> []) (map strings_TrimSpace (butlast ?ls @ [last ?ls @ e]))"
      using sp by (simp add: nonblankLines_def textLines_def)
    also have "\<dots> = filter (\<lambda>l. l \<noteq> []) (map strings_TrimSpace (butlast ?ls @ [last ?ls]))"
      using tr by simp
    also have "\<dots> = nonblankLines s"
      using ls by (simp add: nonblankLines_def textLines_def)
    finally show ?thesis .
  qed
qed

lemma nonblankLines_left: "space_only w \<Longrightarrow> nonblankLines (w @ s) = nonblankLines s"
  by (induction w rule: space_only_induct) (simp_all add: nonblankLines_rune_left)

lemma nonblankLines_right: "space_only w \<Longrightarrow> nonblankLines (s @ w) = nonblankLines s"
proof (induction w arbitrary: s rule: space_only_induct)
  case Nil
  show ?case by simp
next
  case (rune e w)
  have "nonblankLines ((s @ e) @ w) = nonblankLines (s @ e)"
    by (rule rune.IH)
  with rune.hyps show ?case by (simp add: nonblankLines_rune_right)
qed

lemma nonblankLines_TrimSpace: "nonblankLines (bytes_TrimSpace d) = nonblankLines d"
proof -
  obtain w1 where w1: "space_only w1" and d: "d = w1 @ TrimLeftSpace d"
    using TrimLeftSpace_decomp by blast
  obtain w2 where w2: "space_only w2"
    and t: "TrimLeftSpace d = TrimRightSpace (TrimLeftSpace d) @ w2"
    using TrimRightSpace_decomp by blast
  have "nonblankLines d = nonblankLines (w1 @ TrimLeftSpace d)" using d by simp
  also have "\<dots> = nonblankLines (TrimLeftSpace d)" using w1 by (rule nonblankLines_left)
  also have "\<dots> = nonblankLines (bytes_TrimSpace d @ w2)"
    using t by (simp add: bytes_TrimSpace_def)
  also have "\<dots> = nonblankLines (bytes_TrimSpace d)" using w2 by (rule nonblankLines_right)
  finally show ?thesis by simp
qed


lemma decodeLines_blank: "decodeLines lib [[]] docs = (docs, None)"
  by (simp add: dropCR_def strings_TrimSpace_Nil MaxScanTokenSize_def)

lemma scanLoop_decodeLines:
  "err sc = None \<Longrightarrow> scanLoop lib sc docs = decodeLines lib (textLines (input sc)) docs"
proof (induction "length (input sc)" arbitrary: sc docs rule: less_induct)
  case less
  let ?p = "\<lambda>c. c \<noteq> CHR 0x0A"
  let ?line = "takeWhile ?p (input sc)"
  let ?rest = "dropWhile ?p (input sc)"
  show ?case
  proof (cases "input sc = []")
    case True
    then have "textLines (input sc) = [[]]" by (simp add: textLines_def)
    then have "decodeLines lib (textLines (input sc)) docs = (docs, None)"
      by (simp only: decodeLines_blank)
    moreover have "scanLoop lib sc docs = (docs, None)"
      using True less.prems by (subst scanLoop.simps) (simp add: Scan_def Err_def)
    ultimately show ?thesis by simp
  next
    case False
    note ne = this
    have split: "textLines (input sc) =
        ?line # (case ?rest of [] \<Rightarrow> [] | y # r \<Rightarrow> textLines r)"
      unfolding textLines_def by (rule strings_Split_unfold)
    show ?thesis
    proof (cases "MaxScanTokenSize \<le> length ?line")
      case True
      with ne show ?thesis
        by (subst scanLoop.simps) (simp add: Scan_def Err_def Let_def split)
    next
      case False
      define sc' where "sc' = sc\<lparr>input := drop 1 ?rest, token := dropCR ?line\<rparr>"
      from ne False have scan: "Scan sc = (True, sc')"
        by (simp add: Scan_def Let_def sc'_def)
      then have "length (input sc') < length (input sc)" by (rule Scan_shorter)
      moreover have "err sc' = None" using less.prems by (simp add: sc'_def)
      ultimately have ih: "scanLoop lib sc' ds = decodeLines lib (textLines (input sc')) ds"
        for ds by (rule less.hyps)
      have tail: "decodeLines lib (textLines (input sc')) ds =
          decodeLines lib (case ?rest of [] \<Rightarrow> [] | y # r \<Rightarrow> textLines r) ds" for ds
      proof (cases ?rest)
        case Nil
        then have "input sc' = []" by (simp only: sc'_def) simp
        then have "textLines (input sc') = [[]]" by (simp add: textLines_def)
        then have "decodeLines lib (textLines (input sc')) ds = (ds, None)"
          by (simp only: decodeLines_blank)
        moreover have "decodeLines lib (case ?rest of [] \<Rightarrow> [] | y # r \<Rightarrow> textLines r) ds
            = (ds, None)"
          by (simp only: Nil) simp
        ultimately show ?thesis by simp
      next
        case (Cons y r)
        then have "input sc' = r" by (simp only: sc'_def) simp
        moreover have "(case ?rest of [] \<Rightarrow> [] | y # r \<Rightarrow> textLines r) = textLines r"
          by (simp only: Cons) simp
        ultimately show ?thesis by simp
      qed
      have tok: "Text sc' = dropCR ?line" by (simp add: Text_def sc'_def)
      show ?thesis
        using False scan
        by (subst scanLoop.simps)
          (simp add: split ih tail tok Let_def split: sum.splits)
    qed
  qed
qed

lemma decodeLines_error:
  "decodeLines lib ls docs = (r, Some e) \<Longrightarrow> r = []"
  by (induction ls arbitrary: docs) (auto simp: Let_def split: if_splits sum.splits)

lemma decodeLines_long:
  "l \<in> set ls \<Longrightarrow> MaxScanTokenSize \<le> length l \<Longrightarrow>
   \<exists>e. decodeLines lib ls docs = ([], Some e)"
  by (induction ls arbitrary: docs) (auto simp: Let_def split: sum.splits)

lemma decodeLines_bad:
  "l \<in> set ls \<Longrightarrow> strings_TrimSpace l \<noteq> [] \<Longrightarrow>
   UnmarshalExtJSON_doc lib (strings_TrimSpace l) False = Inl e \<Longrightarrow>
   \<exists>e'. decodeLines lib ls docs = ([], Some e')"
  by (induction ls arbitrary: docs)
    (auto simp: Let_def strings_TrimSpace_dropCR split: sum.splits)

lemma decodeLines_ok:
  "decodeLines lib ls docs = (r, None) \<Longrightarrow>
   r = docs @ map (\<lambda>l. projr (UnmarshalExtJSON_doc lib l False))
                 (filter (\<lambda>l. l \<noteq> []) (map strings_TrimSpace ls))"
proof (induction ls arbitrary: docs)
  case Nil
  then show ?case by simp
next
  case (Cons a ls)
  let ?line = "strings_TrimSpace a"
  from Cons.prems have short: "\<not> MaxScanTokenSize \<le> length a"
    by (auto split: if_splits)
  show ?case
  proof (cases "?line = []")
    case True
    with Cons.prems short have "decodeLines lib ls docs = (r, None)"
      by (simp add: strings_TrimSpace_dropCR)
    then show ?thesis using True by (simp add: Cons.IH)
  next
    case False
    with Cons.prems short obtain m where m: "UnmarshalExtJSON_doc lib ?line False = Inr m"
      and rest: "decodeLines lib ls (docs @ [m]) = (r, None)"
      by (auto simp: strings_TrimSpace_dropCR split: sum.splits)
    from rest have "r = (docs @ [m]) @ map (\<lambda>l. projr (UnmarshalExtJSON_doc lib l False))
                 (filter (\<lambda>l. l \<noteq> []) (map strings_TrimSpace ls))"
      by (rule Cons.IH)
    with False m show ?thesis by simp
  qed
qed

lemma decodeLines_all:
  "(\<forall>l\<in>set ls. length l < MaxScanTokenSize \<and>
      (strings_TrimSpace l \<noteq> [] \<longrightarrow>
         \<not> isl (UnmarshalExtJSON_doc lib (strings_TrimSpace l) False))) \<Longrightarrow>
   decodeLines lib ls docs =
     (docs @ map (\<lambda>l. projr (UnmarshalExtJSON_doc lib l False))
                (filter (\<lambda>l. l \<noteq> []) (map strings_TrimSpace ls)), None)"
proof (induction ls arbitrary: docs)
  case Nil
  show ?case by simp
next
  case (Cons a ls)
  let ?line = "strings_TrimSpace a"
  from Cons.prems have short: "\<not> MaxScanTokenSize \<le> length a" by auto
  from Cons.prems have ih: "decodeLines lib ls ds =
     (ds @ map (\<lambda>l. projr (UnmarshalExtJSON_doc lib l False))
                (filter (\<lambda>l. l \<noteq> []) (map strings_TrimSpace ls)), None)" for ds
    by (intro Cons.IH) auto
  show ?case
  proof (cases "?line = []")
    case True
    with short show ?thesis by (simp add: strings_TrimSpace_dropCR ih)
  next
    case False
    with Cons.prems have "\<not> isl (UnmarshalExtJSON_doc lib ?line False)" by auto
    then obtain m where m: "UnmarshalExtJSON_doc lib ?line False = Inr m"
      by (cases "UnmarshalExtJSON_doc lib ?line False") auto
    with False short show ?thesis by (simp add: strings_TrimSpace_dropCR ih)
  qed
qed

section \<open>Properties of the record parser\<close>

text \<open>The last bytes of the encodings of the white-space runes.\<close>

definition tailByte :: "char \<Rightarrow> bool" where
  "tailByte c = (c \<in> set (map last spaceRunes))"

text \<open>
  A stand-in for the driver's decoder, used in the examples only. As a document it
  accepts a text in braces and returns the text; as an array it accepts two texts.
  It ignores the second argument.
\<close>

definition example_bson :: "(string, string) bson" where
  \<open>example_bson =
     \<lparr>UnmarshalExtJSON_array =
        (\<lambda>data canonical.
           if data = ''[{"a":1},{"b":2}]'' then Inr [''{"a":1}'', ''{"b":2}'']
           else if data = ''[]'' then Inr []
           else Inl ''invalid''),
      UnmarshalExtJSON_doc =
        (\<lambda>data canonical.
           if data \<noteq> [] \<and> hd data = CHR ''{'' \<and> last data = CHR ''}'' then Inr data
           else Inl ''invalid'')\<rparr>\<close>

lemma spaceRunes_last: "e \<in> set spaceRunes \<Longrightarrow> tailByte (last e)"
  by (simp add: tailByte_def)

lemma leadingSpace_other: "s \<noteq> [] \<Longrightarrow> \<not> leadByte (hd s) \<Longrightarrow> leadingSpace s = 0"
proof (rule ccontr)
  assume ne: "s \<noteq> []" and nl: "\<not> leadByte (hd s)" and "leadingSpace s \<noteq> 0"
  then have "0 < leadingSpace s" by simp
  then obtain e where e: "e \<in> set spaceRunes" and s: "s = e @ drop (leadingSpace s) s"
    by (rule leadingSpace_pos)
  from e have "e \<noteq> []" by (rule spaceRunes_nonempty)
  with s have "hd s = hd e" by (metis hd_append2)
  with spaceRunes_lead [OF e] nl show False by simp
qed

lemma trailingSpace_other: "s \<noteq> [] \<Longrightarrow> \<not> tailByte (last s) \<Longrightarrow> trailingSpace s = 0"
proof (rule ccontr)
  assume ne: "s \<noteq> []" and nl: "\<not> tailByte (last s)" and "trailingSpace s \<noteq> 0"
  then have "0 < trailingSpace s" by simp
  then obtain e where e: "e \<in> set spaceRunes"
    and s: "s = take (length s - trailingSpace s) s @ e"
    by (rule trailingSpace_pos)
  from e have "e \<noteq> []" by (rule spaceRunes_nonempty)
  with s have "last s = last e" by (metis last_appendR)
  with spaceRunes_last [OF e] nl show False by simp
qed

lemma TrimSpace_core:
  assumes w1: "space_only w1" and w2: "space_only w2" and ne: "s \<noteq> []"
    and hd: "\<not> leadByte (hd s)" and lst: "\<not> tailByte (last s)"
  shows "TrimRightSpace (TrimLeftSpace (w1 @ s @ w2)) = s"
proof -
  have "TrimLeftSpace (w1 @ s @ w2) = TrimLeftSpace (s @ w2)"
    using w1 by (rule TrimLeftSpace_space_only)
  also have "\<dots> = s @ w2"
    using ne hd by (intro TrimLeftSpace_id leadingSpace_other) simp_all
  finally have "TrimRightSpace (TrimLeftSpace (w1 @ s @ w2)) = TrimRightSpace (s @ w2)" by simp
  also have "\<dots> = TrimRightSpace s" using w2 by (rule TrimRightSpace_space_only)
  also have "\<dots> = s" using ne lst by (intro TrimRightSpace_id trailingSpace_other)
  finally show ?thesis .
qed

lemma bytes_TrimSpace_core:
  "space_only w1 \<Longrightarrow> space_only w2 \<Longrightarrow> s \<noteq> [] \<Longrightarrow> \<not> leadByte (hd s) \<Longrightarrow>
   \<not> tailByte (last s) \<Longrightarrow> bytes_TrimSpace (w1 @ s @ w2) = s"
  by (simp add: bytes_TrimSpace_def TrimSpace_core)

lemma strings_TrimSpace_core:
  "space_only w1 \<Longrightarrow> space_only w2 \<Longrightarrow> s \<noteq> [] \<Longrightarrow> \<not> leadByte (hd s) \<Longrightarrow>
   \<not> tailByte (last s) \<Longrightarrow> strings_TrimSpace (w1 @ s @ w2) = s"
  by (simp add: strings_TrimSpace_def TrimSpace_core)

lemma space_only_Cons:
  "[c] \<in> set spaceRunes \<Longrightarrow> space_only s \<Longrightarrow> space_only (c # s)"
  using space_only_rune [of "[c]" s] by simp

lemma space_only_replicate: "[c] \<in> set spaceRunes \<Longrightarrow> space_only (replicate n c)"
  by (induction n) (simp_all add: space_only_Nil space_only_Cons)


lemma bytes_TrimSpace_plain:
  "s \<noteq> [] \<Longrightarrow> \<not> leadByte (hd s) \<Longrightarrow> \<not> tailByte (last s) \<Longrightarrow> bytes_TrimSpace s = s"
  using bytes_TrimSpace_core [of "[]" "[]" s] by (simp add: space_only_Nil)

lemma strings_TrimSpace_plain:
  "s \<noteq> [] \<Longrightarrow> \<not> leadByte (hd s) \<Longrightarrow> \<not> tailByte (last s) \<Longrightarrow> strings_TrimSpace s = s"
  using strings_TrimSpace_core [of "[]" "[]" s] by (simp add: space_only_Nil)


lemma foldl_snoc: "foldl (\<lambda>docs m. docs @ [m]) acc arr = acc @ arr"
  by (induction arr arbitrary: acc) simp_all

lemma parse_array:
  "bytes_TrimSpace data \<noteq> [] \<Longrightarrow> hd (bytes_TrimSpace data) = CHR ''['' \<Longrightarrow>
   parseExtendedJSON lib data =
     (case UnmarshalExtJSON_array lib (bytes_TrimSpace data) False of
        Inl e \<Rightarrow> ([], Some (FailedArray e))
      | Inr arr \<Rightarrow> (arr, None))"
  by (simp add: parseExtendedJSON_def Let_def foldl_snoc split: sum.splits)

lemma parse_scan:
  "bytes_TrimSpace data \<noteq> [] \<Longrightarrow> hd (bytes_TrimSpace data) \<noteq> CHR ''['' \<Longrightarrow>
   parseExtendedJSON lib data = scanLoop lib (bufio_NewScanner (bytes_TrimSpace data)) []"
  by (simp add: parseExtendedJSON_def Let_def)

lemma parse_lines:
  "bytes_TrimSpace data \<noteq> [] \<Longrightarrow> hd (bytes_TrimSpace data) \<noteq> CHR ''['' \<Longrightarrow>
   parseExtendedJSON lib data = decodeLines lib (textLines (bytes_TrimSpace data)) []"
  using scanLoop_decodeLines [of "bufio_NewScanner (bytes_TrimSpace data)" lib "[]"]
  by (simp add: parse_scan bufio_NewScanner_def)


lemma nonblankLines_Nil: "nonblankLines [] = []"
  by (simp add: nonblankLines_def textLines_def strings_TrimSpace_Nil)

lemma nonblank_content:
  "l \<in> set (textLines data) \<Longrightarrow> strings_TrimSpace l \<noteq> [] \<Longrightarrow> bytes_TrimSpace data \<noteq> []"
proof
  assume l: "l \<in> set (textLines data)" and ne: "strings_TrimSpace l \<noteq> []"
    and "bytes_TrimSpace data = []"
  then have "nonblankLines data = []"
    using nonblankLines_TrimSpace [of data] by (simp add: nonblankLines_Nil)
  with l ne show False by (auto simp: nonblankLines_def filter_empty_conv)
qed

subsection \<open>The claims about the parser\<close>









text \<open>
  Claim C8. On an input that is empty or consists of white space only,
  \<^verbatim>\<open>parseExtendedJSON\<close> returns no record and no error.
\<close>

theorem parseExtendedJSON_space_only:
  "space_only data \<Longrightarrow> parseExtendedJSON lib data = ([], None)"
  by (simp add: parseExtendedJSON_def bytes_TrimSpace_space_only)

theorem parseExtendedJSON_space_only_witness:
  "space_only [] \<and> parseExtendedJSON example_bson [] = ([], None) \<and>
   space_only [CHR 0x20, CHR 0x0A, CHR 0xC2, CHR 0xA0, CHR 0x09, CHR 0x0D, CHR 0x0A] \<and>
   parseExtendedJSON example_bson
     [CHR 0x20, CHR 0x0A, CHR 0xC2, CHR 0xA0, CHR 0x09, CHR 0x0D, CHR 0x0A] = ([], None)"
proof -
  have nbsp: "[CHR 0xC2, CHR 0xA0] \<in> set spaceRunes"
    and sp: "[CHR 0x20] \<in> set spaceRunes"
    and nl: "[CHR 0x0A] \<in> set spaceRunes"
    by (simp_all add: spaceRunes_def)
  have "space_only [CHR 0x09, CHR 0x0D, CHR 0x0A]"
    by (intro space_only_Cons space_only_Nil) (simp_all add: spaceRunes_def)
  with nbsp have "space_only ([CHR 0xC2, CHR 0xA0] @ [CHR 0x09, CHR 0x0D, CHR 0x0A])"
    by (rule space_only_rune)
  then have "space_only [CHR 0xC2, CHR 0xA0, CHR 0x09, CHR 0x0D, CHR 0x0A]" by simp
  with nl have "space_only [CHR 0x0A, CHR 0xC2, CHR 0xA0, CHR 0x09, CHR 0x0D, CHR 0x0A]"
    by (rule space_only_Cons)
  with sp have "space_only [CHR 0x20, CHR 0x0A, CHR 0xC2, CHR 0xA0, CHR 0x09, CHR 0x0D, CHR 0x0A]"
    by (rule space_only_Cons)
  with space_only_Nil show ?thesis
    using parseExtendedJSON_space_only [of "[]" example_bson]
      parseExtendedJSON_space_only
        [of "[CHR 0x20, CHR 0x0A, CHR 0xC2, CHR 0xA0, CHR 0x09, CHR 0x0D, CHR 0x0A]" example_bson]
    by simp
qed




text \<open>
  Claim C3. The input is in the newline-delimited mode when its first byte after the
  leading white space is not \<open>[\<close>. When one of its lines, trimmed, is not empty and
  the decoder rejects it (the loop decodes the trimmed line), the result is an error
  and no record, whatever the other lines hold.
\<close>

theorem parseExtendedJSON_bad_line:
  assumes mode: "hd (bytes_TrimSpace data) \<noteq> CHR ''[''"
    and l: "l \<in> set (textLines data)"
    and nonblank: "strings_TrimSpace l \<noteq> []"
    and bad: "UnmarshalExtJSON_doc lib (strings_TrimSpace l) False = Inl e"
  shows "\<exists>e'. parseExtendedJSON lib data = ([], Some e')"
proof -
  from l nonblank have ne: "bytes_TrimSpace data \<noteq> []" by (rule nonblank_content)
  from l nonblank have "strings_TrimSpace l \<in> set (nonblankLines data)"
    by (simp add: nonblankLines_def)
  then have "strings_TrimSpace l \<in> set (nonblankLines (bytes_TrimSpace data))"
    by (simp add: nonblankLines_TrimSpace)
  then obtain l' where l': "l' \<in> set (textLines (bytes_TrimSpace data))"
    and eq: "strings_TrimSpace l' = strings_TrimSpace l"
    by (auto simp: nonblankLines_def)
  from l' nonblank bad eq
  have "\<exists>e'. decodeLines lib (textLines (bytes_TrimSpace data)) [] = ([], Some e')"
    by (intro decodeLines_bad [of l']) simp_all
  with ne mode show ?thesis by (simp add: parse_lines)
qed

theorem parseExtendedJSON_bad_line_witness:
  \<open>hd (bytes_TrimSpace ''{"a":1}\<newline>not json\<newline>{"b":2}\<newline>'') \<noteq> CHR ''['' \<and>
   ''not json'' \<in> set (textLines ''{"a":1}\<newline>not json\<newline>{"b":2}\<newline>'') \<and>
   strings_TrimSpace ''not json'' \<noteq> [] \<and>
   UnmarshalExtJSON_doc example_bson (strings_TrimSpace ''not json'') False = Inl ''invalid'' \<and>
   (\<exists>e'. parseExtendedJSON example_bson ''{"a":1}\<newline>not json\<newline>{"b":2}\<newline>'' =
      ([], Some e'))\<close>
proof -
  let ?d = \<open>''{"a":1}\<newline>not json\<newline>{"b":2}\<newline>''\<close>
  have nl: "space_only ''\<newline>''"
    by (intro space_only_Cons space_only_Nil) (simp add: spaceRunes_def)
  have t: \<open>bytes_TrimSpace ?d = ''{"a":1}\<newline>not json\<newline>{"b":2}''\<close>
    using bytes_TrimSpace_core [OF space_only_Nil nl,
        of \<open>''{"a":1}\<newline>not json\<newline>{"b":2}''\<close>]
    by (simp add: leadByte_def tailByte_def spaceRunes_def)
  have n: \<open>strings_TrimSpace ''not json'' = ''not json''\<close>
    by (rule strings_TrimSpace_plain) (simp_all add: leadByte_def tailByte_def spaceRunes_def)
  have mode: \<open>hd (bytes_TrimSpace ?d) \<noteq> CHR ''[''\<close> by (simp add: t)
  have l: \<open>''not json'' \<in> set (textLines ?d)\<close> by (simp add: textLines_def)
  have ne: \<open>strings_TrimSpace ''not json'' \<noteq> []\<close> by (simp add: n)
  have bad: \<open>UnmarshalExtJSON_doc example_bson (strings_TrimSpace ''not json'') False =
      Inl ''invalid''\<close>
    by (simp add: n example_bson_def)
  from parseExtendedJSON_bad_line [OF mode l ne bad] mode l ne bad show ?thesis by simp
qed


text \<open>
  Claim C7. When the parse succeeds, the records are in the order of the source. In
  the array mode they are the documents of the decoded array, in its order. In the
  newline-delimited mode they are the decodings of the non-blank lines of the input,
  each trimmed, in the order of the lines; a blank line gives no record. In
  particular two objects on consecutive lines, when the decoder accepts them, give
  exactly their two records in that order.
\<close>

theorem parseExtendedJSON_order:
  \<open>(parseExtendedJSON lib data = (docs, None) \<longrightarrow>
      (if bytes_TrimSpace data \<noteq> [] \<and> hd (bytes_TrimSpace data) = CHR ''[''
       then UnmarshalExtJSON_array lib (bytes_TrimSpace data) False = Inr docs
       else docs = map (\<lambda>l. projr (UnmarshalExtJSON_doc lib l False)) (nonblankLines data) \<and>
            (\<forall>l\<in>set (nonblankLines data). \<not> isl (UnmarshalExtJSON_doc lib l False)))) \<and>
   (UnmarshalExtJSON_doc lib ''{"a":1}'' False = Inr m1 \<longrightarrow>
    UnmarshalExtJSON_doc lib ''{"b":2}'' False = Inr m2 \<longrightarrow>
      parseExtendedJSON lib ''{"a":1}\<newline>{"b":2}\<newline>'' = ([m1, m2], None))\<close>
proof (intro conjI impI)
  assume ok: "parseExtendedJSON lib data = (docs, None)"
  show "if bytes_TrimSpace data \<noteq> [] \<and> hd (bytes_TrimSpace data) = CHR ''[''
       then UnmarshalExtJSON_array lib (bytes_TrimSpace data) False = Inr docs
       else docs = map (\<lambda>l. projr (UnmarshalExtJSON_doc lib l False)) (nonblankLines data) \<and>
            (\<forall>l\<in>set (nonblankLines data). \<not> isl (UnmarshalExtJSON_doc lib l False))"
  proof (cases "bytes_TrimSpace data = []")
    case True
    then have "nonblankLines data = []"
      using nonblankLines_TrimSpace [of data] by (simp add: nonblankLines_Nil)
    moreover from ok True have "docs = []" by (simp add: parseExtendedJSON_def)
    ultimately show ?thesis using True by simp
  next
    case ne: False
    show ?thesis
    proof (cases "hd (bytes_TrimSpace data) = CHR ''[''")
      case True
      with ok ne show ?thesis by (auto simp: parse_array split: sum.splits)
    next
      case False
      with ok ne have d: "decodeLines lib (textLines (bytes_TrimSpace data)) [] = (docs, None)"
        by (simp add: parse_lines)
      then have "docs = [] @ map (\<lambda>l. projr (UnmarshalExtJSON_doc lib l False))
          (filter (\<lambda>l. l \<noteq> []) (map strings_TrimSpace (textLines (bytes_TrimSpace data))))"
        by (rule decodeLines_ok)
      then have "docs = map (\<lambda>l. projr (UnmarshalExtJSON_doc lib l False)) (nonblankLines data)"
        using nonblankLines_TrimSpace [of data] by (simp add: nonblankLines_def)
      moreover have "\<forall>l\<in>set (nonblankLines data). \<not> isl (UnmarshalExtJSON_doc lib l False)"
      proof
        fix x assume "x \<in> set (nonblankLines data)"
        then have "x \<in> set (nonblankLines (bytes_TrimSpace data))"
          by (simp add: nonblankLines_TrimSpace)
        then obtain l where l: "l \<in> set (textLines (bytes_TrimSpace data))"
          and x: "x = strings_TrimSpace l" and xne: "strings_TrimSpace l \<noteq> []"
          by (auto simp: nonblankLines_def)
        show "\<not> isl (UnmarshalExtJSON_doc lib x False)"
        proof
          assume "isl (UnmarshalExtJSON_doc lib x False)"
          then obtain e where "UnmarshalExtJSON_doc lib (strings_TrimSpace l) False = Inl e"
            using x by (cases "UnmarshalExtJSON_doc lib x False") auto
          with l xne
          have "\<exists>e'. decodeLines lib (textLines (bytes_TrimSpace data)) [] = ([], Some e')"
            by (intro decodeLines_bad [of l]) simp_all
          with d show False by simp
        qed
      qed
      ultimately show ?thesis using False by simp
    qed
  qed
next
  assume m1: \<open>UnmarshalExtJSON_doc lib ''{"a":1}'' False = Inr m1\<close>
    and m2: \<open>UnmarshalExtJSON_doc lib ''{"b":2}'' False = Inr m2\<close>
  have nl: "space_only ''\<newline>''"
    by (intro space_only_Cons space_only_Nil) (simp add: spaceRunes_def)
  have t: \<open>bytes_TrimSpace ''{"a":1}\<newline>{"b":2}\<newline>'' = ''{"a":1}\<newline>{"b":2}''\<close>
    using bytes_TrimSpace_core [OF space_only_Nil nl, of \<open>''{"a":1}\<newline>{"b":2}''\<close>]
    by (simp add: leadByte_def tailByte_def spaceRunes_def)
  have ls: \<open>textLines ''{"a":1}\<newline>{"b":2}'' = [''{"a":1}'', ''{"b":2}'']\<close>
    by (simp add: textLines_def)
  have a: \<open>strings_TrimSpace ''{"a":1}'' = ''{"a":1}''\<close>
    by (rule strings_TrimSpace_plain) (simp_all add: leadByte_def tailByte_def spaceRunes_def)
  have b: \<open>strings_TrimSpace ''{"b":2}'' = ''{"b":2}''\<close>
    by (rule strings_TrimSpace_plain) (simp_all add: leadByte_def tailByte_def spaceRunes_def)
  have \<open>decodeLines lib [''{"a":1}'', ''{"b":2}''] [] = ([m1, m2], None)\<close>
    using m1 m2 by (simp add: strings_TrimSpace_dropCR a b MaxScanTokenSize_def)
  then show \<open>parseExtendedJSON lib ''{"a":1}\<newline>{"b":2}\<newline>'' = ([m1, m2], None)\<close>
    using parse_lines [of \<open>''{"a":1}\<newline>{"b":2}\<newline>''\<close> lib] by (simp add: t ls)
qed


theorem parseExtendedJSON_order_witness:
  \<open>parseExtendedJSON example_bson ''{"a":1}\<newline>{"b":2}\<newline>'' =
     ([''{"a":1}'', ''{"b":2}''], None) \<and>
   nonblankLines ''{"a":1}\<newline>{"b":2}\<newline>'' = [''{"a":1}'', ''{"b":2}''] \<and>
   [''{"a":1}'', ''{"b":2}''] =
     map (\<lambda>l. projr (UnmarshalExtJSON_doc example_bson l False))
       (nonblankLines ''{"a":1}\<newline>{"b":2}\<newline>'') \<and>
   parseExtendedJSON example_bson ''[{"a":1},{"b":2}]'' = ([''{"a":1}'', ''{"b":2}''], None) \<and>
   UnmarshalExtJSON_array example_bson (bytes_TrimSpace ''[{"a":1},{"b":2}]'') False =
     Inr [''{"a":1}'', ''{"b":2}'']\<close>
proof -
  let ?d = \<open>''{"a":1}\<newline>{"b":2}\<newline>''\<close>
  let ?arr = \<open>''[{"a":1},{"b":2}]''\<close>
  let ?docs = \<open>[''{"a":1}'', ''{"b":2}'']\<close>
  have nl: "space_only ''\<newline>''"
    by (intro space_only_Cons space_only_Nil) (simp add: spaceRunes_def)
  have t: \<open>bytes_TrimSpace ?d = ''{"a":1}\<newline>{"b":2}''\<close>
    using bytes_TrimSpace_core [OF space_only_Nil nl, of \<open>''{"a":1}\<newline>{"b":2}''\<close>]
    by (simp add: leadByte_def tailByte_def spaceRunes_def)
  have ta: \<open>bytes_TrimSpace ?arr = ?arr\<close>
    by (rule bytes_TrimSpace_plain) (simp_all add: leadByte_def tailByte_def spaceRunes_def)
  have a: \<open>strings_TrimSpace ''{"a":1}'' = ''{"a":1}''\<close>
    by (rule strings_TrimSpace_plain) (simp_all add: leadByte_def tailByte_def spaceRunes_def)
  have b: \<open>strings_TrimSpace ''{"b":2}'' = ''{"b":2}''\<close>
    by (rule strings_TrimSpace_plain) (simp_all add: leadByte_def tailByte_def spaceRunes_def)
  have nb: \<open>nonblankLines ?d = ?docs\<close>
    by (simp add: nonblankLines_def textLines_def a b strings_TrimSpace_Nil)
  have p: \<open>parseExtendedJSON example_bson ?d = (?docs, None)\<close>
    using parseExtendedJSON_order [of example_bson \<open>[]\<close> \<open>[]\<close> \<open>''{"a":1}''\<close> \<open>''{"b":2}''\<close>]
    by (simp add: example_bson_def)
  have pa: \<open>parseExtendedJSON example_bson ?arr = (?docs, None)\<close>
    by (simp add: parse_array ta example_bson_def)
  from p parseExtendedJSON_order [of example_bson ?d ?docs]
  have \<open>?docs = map (\<lambda>l. projr (UnmarshalExtJSON_doc example_bson l False)) (nonblankLines ?d)\<close>
    by (simp add: t)
  moreover from pa parseExtendedJSON_order [of example_bson ?arr ?docs]
  have \<open>UnmarshalExtJSON_array example_bson (bytes_TrimSpace ?arr) False = Inr ?docs\<close>
    by (simp add: ta)
  ultimately show ?thesis using p pa nb by simp
qed

text \<open>
  Claim C10, as amended. The scanner reads the trimmed content. In the
  newline-delimited mode, when a line of the trimmed content is longer than 65536
  bytes, the result is an error and no record, whatever the lines hold.
\<close>

theorem parseExtendedJSON_long_line:
  assumes mode: "hd (bytes_TrimSpace data) \<noteq> CHR ''[''"
    and l: "l \<in> set (textLines (bytes_TrimSpace data))"
    and long: "65536 < length l"
  shows "\<exists>e. parseExtendedJSON lib data = ([], Some e)"
proof -
  have ne: "bytes_TrimSpace data \<noteq> []"
  proof
    assume "bytes_TrimSpace data = []"
    with l have "l = []" by (simp add: textLines_def)
    with long show False by simp
  qed
  from long have "MaxScanTokenSize \<le> length l" by (simp add: MaxScanTokenSize_def)
  with l have "\<exists>e. decodeLines lib (textLines (bytes_TrimSpace data)) [] = ([], Some e)"
    by (rule decodeLines_long)
  with ne mode show ?thesis by (simp add: parse_lines)
qed

theorem parseExtendedJSON_long_line_witness:
  \<open>hd (bytes_TrimSpace (''{"a":1}\<newline>'' @ replicate 65537 (CHR ''x''))) \<noteq> CHR ''['' \<and>
   replicate 65537 (CHR ''x'') \<in>
     set (textLines (bytes_TrimSpace (''{"a":1}\<newline>'' @ replicate 65537 (CHR ''x'')))) \<and>
   65536 < length (replicate 65537 (CHR ''x'')) \<and>
   (\<exists>e. parseExtendedJSON example_bson (''{"a":1}\<newline>'' @ replicate 65537 (CHR ''x'')) =
      ([], Some e))\<close>
proof -
  let ?x = "replicate 65537 (CHR ''x'')"
  let ?d = \<open>''{"a":1}\<newline>'' @ ?x\<close>
  have "last ?d = CHR ''x''" by simp
  then have "?d \<noteq> [] \<and> \<not> leadByte (hd ?d) \<and> \<not> tailByte (last ?d)"
    by (simp add: leadByte_def tailByte_def spaceRunes_def)
  then have t: "bytes_TrimSpace ?d = ?d" by (simp add: bytes_TrimSpace_plain)
  have \<open>textLines ?d = strings_Split ''{"a":1}'' (CHR 0x0A) @ strings_Split ?x (CHR 0x0A)\<close>
    using strings_Split_append [of \<open>''{"a":1}''\<close> "CHR 0x0A" ?x] by (simp add: textLines_def)
  then have ls: \<open>textLines ?d = [''{"a":1}'', ?x]\<close>
    by (simp add: strings_Split_no_sep)
  have mode: "hd (bytes_TrimSpace ?d) \<noteq> CHR ''[''" unfolding t by simp
  have l: "?x \<in> set (textLines (bytes_TrimSpace ?d))" unfolding t ls by simp
  have long: "65536 < length ?x" by simp
  from parseExtendedJSON_long_line [OF mode l long] mode l long show ?thesis by blast
qed

text \<open>
  The claim as stated speaks of the lines of the input. The input below is a single
  line of 65539 bytes, 65537 spaces and then an empty object: its trimmed content is
  the object alone, and the parse returns one record and no error.
\<close>

theorem parseExtendedJSON_long_line_counterexample:
  "hd (bytes_TrimSpace (replicate 65537 (CHR 0x20) @ ''{}'')) \<noteq> CHR ''['' \<and>
   textLines (replicate 65537 (CHR 0x20) @ ''{}'') = [replicate 65537 (CHR 0x20) @ ''{}''] \<and>
   65536 < length (replicate 65537 (CHR 0x20) @ ''{}'') \<and>
   parseExtendedJSON example_bson (replicate 65537 (CHR 0x20) @ ''{}'') = ([''{}''], None)"
proof -
  let ?w = "replicate 65537 (CHR 0x20)"
  have w: "space_only ?w"
    by (rule space_only_replicate) (simp add: spaceRunes_def)
  have t: "bytes_TrimSpace (?w @ ''{}'') = ''{}''"
    using bytes_TrimSpace_core [OF w space_only_Nil, of "''{}''"]
    by (simp add: leadByte_def tailByte_def spaceRunes_def)
  have ls: "textLines (?w @ ''{}'') = [?w @ ''{}'']"
    unfolding textLines_def by (rule strings_Split_no_sep) simp
  have o: "strings_TrimSpace ''{}'' = ''{}''"
    by (rule strings_TrimSpace_plain) (simp_all add: leadByte_def tailByte_def spaceRunes_def)
  have "decodeLines example_bson [''{}''] [] = ([''{}''], None)"
    by (simp add: strings_TrimSpace_dropCR o MaxScanTokenSize_def example_bson_def)
  then have "parseExtendedJSON example_bson (?w @ ''{}'') = ([''{}''], None)"
    using parse_lines [of "?w @ ''{}''" example_bson] by (simp add: t textLines_def)
  with t ls show ?thesis by simp
qed

section \<open>Importing the files\<close>

text \<open>
  The database is a parameter of the model. \<^verbatim>\<open>DeleteMany\<close> (with the empty filter
  \<^verbatim>\<open>bson.M{}\<close>) and \<^verbatim>\<open>InsertMany\<close> on a collection of the database take the state of
  the database and return the error, if any, and the state they leave. Reading a file
  returns an error or the content. The result of the driver is ignored by the
  importer and left out.
\<close>

record ('e, 'm, 'db) env =
  bson_pkg :: "('e, 'm) bson"
  ReadFile :: "string \<Rightarrow> 'e + string"
  Collection_DeleteMany :: "'db \<Rightarrow> string \<Rightarrow> 'e option \<times> 'db"
  Collection_InsertMany :: "'db \<Rightarrow> string \<Rightarrow> 'm list \<Rightarrow> 'e option \<times> 'db"

text \<open>The calls to the database, and the lines the importer prints or logs.\<close>

datatype 'm db_call =
  DeleteMany string
  | InsertMany string "'m list"

datatype 'e message =
  Skipping string
  | Importing string string
  | FailedRead string 'e
  | FailedParse string "'e parse_error"
  | FailedClear string 'e
  | FailedInsert string 'e
  | Inserted nat string

text \<open>
  What a run has done so far: the state of the database, the calls issued to it in
  order, and the output.
\<close>

record ('e, 'm, 'db) run =
  database :: 'db
  calls :: "'m db_call list"
  outputs :: "'e message list"

text \<open>\<^verbatim>\<open>processFile\<close>, lines 61 to 97.\<close>

definition processFile ::
  "('e, 'm, 'db) env \<Rightarrow> ('e, 'm, 'db) run \<Rightarrow> string \<Rightarrow> ('e, 'm, 'db) run" where
  "processFile env st filePath =
     (let coll = extractCollectionName filePath in
      if coll = [] then st\<lparr>outputs := outputs st @ [Skipping filePath]\<rparr>
      else
        let st1 = st\<lparr>outputs := outputs st @ [Importing (filepath_Base filePath) coll]\<rparr> in
        case ReadFile env filePath of
          Inl e \<Rightarrow> st1\<lparr>outputs := outputs st1 @ [FailedRead filePath e]\<rparr>
        | Inr data \<Rightarrow>
            (case parseExtendedJSON (bson_pkg env) data of
               (docs, Some e) \<Rightarrow> st1\<lparr>outputs := outputs st1 @ [FailedParse filePath e]\<rparr>
             | (docs, None) \<Rightarrow>
                 (case Collection_DeleteMany env (database st1) coll of
                    (Some e, db1) \<Rightarrow>
                      st1\<lparr>database := db1,
                          calls := calls st1 @ [DeleteMany coll],
                          outputs := outputs st1 @ [FailedClear coll e]\<rparr>
                  | (None, db1) \<Rightarrow>
                      (case Collection_InsertMany env db1 coll docs of
                         (Some e, db2) \<Rightarrow>
                           st1\<lparr>database := db2,
                               calls := calls st1 @ [DeleteMany coll, InsertMany coll docs],
                               outputs := outputs st1 @ [FailedInsert coll e]\<rparr>
                       | (None, db2) \<Rightarrow>
                           st1\<lparr>database := db2,
                               calls := calls st1 @ [DeleteMany coll, InsertMany coll docs],
                               outputs := outputs st1 @ [Inserted (length docs) coll]\<rparr>))))"

text \<open>The loop of \<^verbatim>\<open>main\<close> over the files of the directory, lines 45 to 47.\<close>

definition processFiles ::
  "('e, 'm, 'db) env \<Rightarrow> ('e, 'm, 'db) run \<Rightarrow> string list \<Rightarrow> ('e, 'm, 'db) run" where
  "processFiles env st files = foldl (processFile env) st files"

lemma processFile_calls_cases:
  "calls (processFile env st f) = calls st \<and> database (processFile env st f) = database st \<or>
   (\<exists>data docs. extractCollectionName f \<noteq> [] \<and> ReadFile env f = Inr data \<and>
      parseExtendedJSON (bson_pkg env) data = (docs, None) \<and>
      (case Collection_DeleteMany env (database st) (extractCollectionName f) of
         (Some e, db1) \<Rightarrow>
           calls (processFile env st f) = calls st @ [DeleteMany (extractCollectionName f)] \<and>
           database (processFile env st f) = db1
       | (None, db1) \<Rightarrow>
           calls (processFile env st f) =
             calls st @ [DeleteMany (extractCollectionName f),
                         InsertMany (extractCollectionName f) docs] \<and>
           database (processFile env st f) =
             snd (Collection_InsertMany env db1 (extractCollectionName f) docs)))"
  by (auto simp: processFile_def Let_def split: sum.splits prod.splits option.splits)


lemma processFile_ready:
  assumes "extractCollectionName f \<noteq> []" and "ReadFile env f = Inr data"
    and "parseExtendedJSON (bson_pkg env) data = (docs, None)"
  shows "\<exists>new. calls (processFile env st f) =
           calls st @ DeleteMany (extractCollectionName f) # new"
  using assms
  by (auto simp: processFile_def Let_def split: sum.splits prod.splits option.splits)

lemma processFile_calls_prefix: "\<exists>new. calls (processFile env st f) = calls st @ new"
  by (auto simp: processFile_def Let_def split: sum.splits prod.splits option.splits)

lemma processFiles_calls_prefix: "\<exists>new. calls (processFiles env st files) = calls st @ new"
proof (induction files arbitrary: st)
  case Nil
  show ?case by (simp add: processFiles_def)
next
  case (Cons x xs)
  obtain n1 where n1: "calls (processFile env st x) = calls st @ n1"
    using processFile_calls_prefix by blast
  obtain n2 where "calls (processFiles env (processFile env st x) xs) =
      calls (processFile env st x) @ n2"
    using Cons.IH by blast
  with n1 show ?case by (simp add: processFiles_def)
qed

lemma processFiles_reaches:
  assumes "g \<in> set files" and "extractCollectionName g \<noteq> []"
    and "ReadFile env g = Inr data"
    and "parseExtendedJSON (bson_pkg env) data = (docs, None)"
  shows "\<exists>new. calls (processFiles env st files) = calls st @ new \<and>
           DeleteMany (extractCollectionName g) \<in> set new"
  using assms(1)
proof (induction files arbitrary: st)
  case Nil
  then show ?case by simp
next
  case (Cons x xs)
  obtain n1 where n1: "calls (processFile env st x) = calls st @ n1"
    using processFile_calls_prefix by blast
  show ?case
  proof (cases "g = x")
    case True
    obtain m where m: "calls (processFile env st x) =
        calls st @ DeleteMany (extractCollectionName g) # m"
      using processFile_ready [OF assms(2-4), of st] True by blast
    obtain n2 where "calls (processFiles env (processFile env st x) xs) =
        calls (processFile env st x) @ n2"
      using processFiles_calls_prefix by blast
    with m have "calls (processFiles env st (x # xs)) =
        calls st @ (DeleteMany (extractCollectionName g) # m @ n2)"
      by (simp add: processFiles_def)
    then show ?thesis
      by (intro exI [of _ "DeleteMany (extractCollectionName g) # m @ n2"]) simp
  next
    case False
    with Cons.prems have "g \<in> set xs" by simp
    then obtain n2 where n2: "calls (processFiles env (processFile env st x) xs) =
        calls (processFile env st x) @ n2"
      and d: "DeleteMany (extractCollectionName g) \<in> set n2"
      using Cons.IH by blast
    from n1 n2 have "calls (processFiles env st (x # xs)) = calls st @ (n1 @ n2)"
      by (simp add: processFiles_def)
    with d show ?thesis by (intro exI [of _ "n1 @ n2"]) simp
  qed
qed

text \<open>
  Claim C4. When the content of the file is read and its parse fails,
  \<^verbatim>\<open>processFile\<close> issues no call to the database, neither the delete nor the
  insert, and leaves the database as it was.
\<close>

theorem processFile_parse_failure:
  assumes "ReadFile env filePath = Inr data"
    and "parseExtendedJSON (bson_pkg env) data = (docs, Some e)"
  shows "calls (processFile env st filePath) = calls st \<and>
         database (processFile env st filePath) = database st"
  using assms by (simp add: processFile_def Let_def)

text \<open>
  Claim C5. The calls that \<^verbatim>\<open>processFile\<close> adds for a file are none, the delete
  alone, or the delete and then the insert on the same collection. The insert is
  issued only when the delete returned no error, and it runs on the database as the
  delete left it; when the delete fails there is no insert. When the name is
  recognised, the file is read and its parse succeeds, the delete is issued first.
  Whatever happens to the other files of the list, each such file of the list gets
  its delete issued in the run over the list.
\<close>

theorem processFile_delete_then_insert:
  assumes "c = extractCollectionName f" and "st' = processFile env st f"
    and "del = Collection_DeleteMany env (database st) c"
  shows "(\<exists>new. calls st' = calls st @ new \<and>
            (new = [] \<or> new = [DeleteMany c] \<or> (\<exists>docs. new = [DeleteMany c, InsertMany c docs])) \<and>
            (\<forall>docs. InsertMany c docs \<in> set new \<longrightarrow>
               fst del = None \<and>
               database st' = snd (Collection_InsertMany env (snd del) c docs)) \<and>
            (fst del \<noteq> None \<longrightarrow> new = [] \<or> new = [DeleteMany c]) \<and>
            (c \<noteq> [] \<longrightarrow> ReadFile env f = Inr data \<longrightarrow>
               parseExtendedJSON (bson_pkg env) data = (ds, None) \<longrightarrow>
               new \<noteq> [] \<and> hd new = DeleteMany c)) \<and>
         (g \<in> set files \<longrightarrow> extractCollectionName g \<noteq> [] \<longrightarrow>
            ReadFile env g = Inr data' \<longrightarrow>
            parseExtendedJSON (bson_pkg env) data' = (ds', None) \<longrightarrow>
            (\<exists>new. calls (processFiles env st files) = calls st @ new \<and>
               DeleteMany (extractCollectionName g) \<in> set new))"
proof (intro conjI impI)
  show "\<exists>new. calls st' = calls st @ new \<and>
            (new = [] \<or> new = [DeleteMany c] \<or> (\<exists>docs. new = [DeleteMany c, InsertMany c docs])) \<and>
            (\<forall>docs. InsertMany c docs \<in> set new \<longrightarrow>
               fst del = None \<and>
               database st' = snd (Collection_InsertMany env (snd del) c docs)) \<and>
            (fst del \<noteq> None \<longrightarrow> new = [] \<or> new = [DeleteMany c]) \<and>
            (c \<noteq> [] \<longrightarrow> ReadFile env f = Inr data \<longrightarrow>
               parseExtendedJSON (bson_pkg env) data = (ds, None) \<longrightarrow>
               new \<noteq> [] \<and> hd new = DeleteMany c)"
    using processFile_calls_cases [of env st f]
  proof
    assume same: "calls (processFile env st f) = calls st \<and>
        database (processFile env st f) = database st"
    have "\<not> (c \<noteq> [] \<and> ReadFile env f = Inr data \<and>
        parseExtendedJSON (bson_pkg env) data = (ds, None))"
    proof
      assume "c \<noteq> [] \<and> ReadFile env f = Inr data \<and>
        parseExtendedJSON (bson_pkg env) data = (ds, None)"
      then obtain m where "calls (processFile env st f) = calls st @ DeleteMany c # m"
        using processFile_ready [of f env data ds st] assms(1) by blast
      with same show False by simp
    qed
    with same assms(2) show ?thesis by (intro exI [of _ "[]"]) auto
  next
    assume "\<exists>data docs. extractCollectionName f \<noteq> [] \<and> ReadFile env f = Inr data \<and>
      parseExtendedJSON (bson_pkg env) data = (docs, None) \<and>
      (case Collection_DeleteMany env (database st) (extractCollectionName f) of
         (Some e, db1) \<Rightarrow>
           calls (processFile env st f) = calls st @ [DeleteMany (extractCollectionName f)] \<and>
           database (processFile env st f) = db1
       | (None, db1) \<Rightarrow>
           calls (processFile env st f) =
             calls st @ [DeleteMany (extractCollectionName f),
                         InsertMany (extractCollectionName f) docs] \<and>
           database (processFile env st f) =
             snd (Collection_InsertMany env db1 (extractCollectionName f) docs))"
    then obtain docs where
      k: "case del of
         (Some e, db1) \<Rightarrow> calls st' = calls st @ [DeleteMany c] \<and> database st' = db1
       | (None, db1) \<Rightarrow>
           calls st' = calls st @ [DeleteMany c, InsertMany c docs] \<and>
           database st' = snd (Collection_InsertMany env db1 c docs)"
      using assms by auto
    show ?thesis
    proof (cases "fst del")
      case None
      with k have "calls st' = calls st @ [DeleteMany c, InsertMany c docs]"
        and "database st' = snd (Collection_InsertMany env (snd del) c docs)"
        by (auto split: prod.splits option.splits)
      with None show ?thesis
        by (intro exI [of _ "[DeleteMany c, InsertMany c docs]"]) auto
    next
      case (Some e)
      with k have "calls st' = calls st @ [DeleteMany c]"
        by (auto split: prod.splits option.splits)
      with Some show ?thesis by (intro exI [of _ "[DeleteMany c]"]) auto
    qed
  qed
next
  assume "g \<in> set files" and "extractCollectionName g \<noteq> []"
    and "ReadFile env g = Inr data'"
    and "parseExtendedJSON (bson_pkg env) data' = (ds', None)"
  then show "\<exists>new. calls (processFiles env st files) = calls st @ new \<and>
      DeleteMany (extractCollectionName g) \<in> set new"
    by (rule processFiles_reaches)
qed


text \<open>
  An environment for the examples: three files; a database that maps the name of a
  collection to its documents, where the delete fails on the collection \<open>locked\<close>;
  and a run that starts with one document in the collection \<open>orders\<close>.
\<close>

definition example_env :: "(string, string, string \<Rightarrow> string list) env" where
  \<open>example_env =
     \<lparr>bson_pkg = example_bson,
      ReadFile =
        (\<lambda>path.
           if path = ''data/customers.json'' then Inr ''[{"a":1},{"b":2}]''
           else if path = ''data/bad.orders.json'' then Inr ''{"a":1}\<newline>not json''
           else if path = ''data/x.locked.json'' then Inr ''{"a":1}''
           else Inl ''no such file''),
      Collection_DeleteMany =
        (\<lambda>db coll. if coll = ''locked'' then (Some ''unavailable'', db) else (None, db(coll := []))),
      Collection_InsertMany = (\<lambda>db coll docs. (None, db(coll := db coll @ docs)))\<rparr>\<close>

definition example_run :: "(string, string, string \<Rightarrow> string list) run" where
  "example_run =
     \<lparr>database = (\<lambda>coll. if coll = ''orders'' then [''old''] else []),
      calls = [],
      outputs = []\<rparr>"

lemma example_names:
  "extractCollectionName ''data/customers.json'' = ''customers''"
  "extractCollectionName ''data/bad.orders.json'' = ''orders''"
  "extractCollectionName ''data/x.locked.json'' = ''locked''"
  by (simp_all add: extractCollectionName_def filepath_Base_def strings_HasSuffix_def Let_def)

lemma example_trim:
  \<open>strings_TrimSpace ''{"a":1}'' = ''{"a":1}''\<close>
  \<open>strings_TrimSpace ''not json'' = ''not json''\<close>
  \<open>bytes_TrimSpace ''{"a":1}'' = ''{"a":1}''\<close>
  \<open>bytes_TrimSpace ''{"a":1}\<newline>not json'' = ''{"a":1}\<newline>not json''\<close>
  \<open>bytes_TrimSpace ''[{"a":1},{"b":2}]'' = ''[{"a":1},{"b":2}]''\<close>
  by (rule strings_TrimSpace_plain bytes_TrimSpace_plain,
      simp_all add: leadByte_def tailByte_def spaceRunes_def)+

lemma example_parse:
  \<open>parseExtendedJSON example_bson ''[{"a":1},{"b":2}]'' = ([''{"a":1}'', ''{"b":2}''], None)\<close>
  \<open>parseExtendedJSON example_bson ''{"a":1}'' = ([''{"a":1}''], None)\<close>
  \<open>parseExtendedJSON example_bson ''{"a":1}\<newline>not json'' = ([], Some (FailedLine ''invalid''))\<close>
proof -
  show \<open>parseExtendedJSON example_bson ''[{"a":1},{"b":2}]'' =
      ([''{"a":1}'', ''{"b":2}''], None)\<close>
    by (simp add: parse_array example_trim example_bson_def)
  have \<open>decodeLines example_bson [''{"a":1}''] [] = ([''{"a":1}''], None)\<close>
    by (simp add: strings_TrimSpace_dropCR example_trim MaxScanTokenSize_def example_bson_def)
  then show \<open>parseExtendedJSON example_bson ''{"a":1}'' = ([''{"a":1}''], None)\<close>
    using parse_lines [of \<open>''{"a":1}''\<close> example_bson]
    by (simp add: example_trim textLines_def)
  have \<open>decodeLines example_bson [''{"a":1}'', ''not json''] [] =
      ([], Some (FailedLine ''invalid''))\<close>
    by (simp add: strings_TrimSpace_dropCR example_trim MaxScanTokenSize_def example_bson_def)
  then show \<open>parseExtendedJSON example_bson ''{"a":1}\<newline>not json'' =
      ([], Some (FailedLine ''invalid''))\<close>
    using parse_lines [of \<open>''{"a":1}\<newline>not json''\<close> example_bson]
    by (simp add: example_trim textLines_def)
qed

theorem processFile_parse_failure_witness:
  \<open>ReadFile example_env ''data/bad.orders.json'' = Inr ''{"a":1}\<newline>not json'' \<and>
   parseExtendedJSON (bson_pkg example_env) ''{"a":1}\<newline>not json'' =
     ([], Some (FailedLine ''invalid'')) \<and>
   calls (processFile example_env example_run ''data/bad.orders.json'') = [] \<and>
   database (processFile example_env example_run ''data/bad.orders.json'') ''orders'' = [''old'']\<close>
proof -
  have r: \<open>ReadFile example_env ''data/bad.orders.json'' = Inr ''{"a":1}\<newline>not json''\<close>
    by (simp add: example_env_def)
  have p: \<open>parseExtendedJSON (bson_pkg example_env) ''{"a":1}\<newline>not json'' =
      ([], Some (FailedLine ''invalid''))\<close>
    by (simp add: example_env_def example_parse)
  from processFile_parse_failure [OF r p, of example_run] r p show ?thesis
    by (simp add: example_run_def)
qed

theorem processFile_delete_then_insert_witness:
  \<open>fst (Collection_DeleteMany example_env (database example_run) ''locked'') \<noteq> None \<and>
   calls (processFile example_env example_run ''data/x.locked.json'') = [DeleteMany ''locked''] \<and>
   calls (processFile example_env example_run ''data/customers.json'') =
     [DeleteMany ''customers'', InsertMany ''customers'' [''{"a":1}'', ''{"b":2}'']] \<and>
   database (processFile example_env example_run ''data/customers.json'') ''customers'' =
     [''{"a":1}'', ''{"b":2}''] \<and>
   (\<exists>new. calls (processFiles example_env example_run
              [''data/x.locked.json'', ''data/bad.orders.json'', ''data/customers.json'']) = new \<and>
      DeleteMany ''customers'' \<in> set new)\<close>
proof -
  let ?files = "[''data/x.locked.json'', ''data/bad.orders.json'', ''data/customers.json'']"
  have fail: "fst (Collection_DeleteMany example_env (database example_run) ''locked'') \<noteq> None"
    by (simp add: example_env_def)
  have rl: \<open>ReadFile example_env ''data/x.locked.json'' = Inr ''{"a":1}''\<close>
    and rc: \<open>ReadFile example_env ''data/customers.json'' = Inr ''[{"a":1},{"b":2}]''\<close>
    by (simp_all add: example_env_def)
  have pl: \<open>parseExtendedJSON (bson_pkg example_env) ''{"a":1}'' = ([''{"a":1}''], None)\<close>
    and pc: \<open>parseExtendedJSON (bson_pkg example_env) ''[{"a":1},{"b":2}]'' =
      ([''{"a":1}'', ''{"b":2}''], None)\<close>
    by (simp_all add: example_env_def example_parse)
  have okc: "fst (Collection_DeleteMany example_env (database example_run) ''customers'') = None"
    by (simp add: example_env_def)
  from processFile_delete_then_insert
    [of "''locked''" "''data/x.locked.json''" _ example_env example_run _
      \<open>''{"a":1}''\<close> \<open>[''{"a":1}'']\<close> "''data/customers.json''" ?files
      \<open>''[{"a":1},{"b":2}]''\<close> \<open>[''{"a":1}'', ''{"b":2}'']\<close>, OF _ refl refl]
  have locked: "calls (processFile example_env example_run ''data/x.locked.json'') =
      [DeleteMany ''locked'']"
    and reach: "\<exists>new. calls (processFiles example_env example_run ?files) = new \<and>
      DeleteMany ''customers'' \<in> set new"
    using fail rl pl rc pc by (auto simp: example_names example_run_def)
  from processFile_delete_then_insert
    [of "''customers''" "''data/customers.json''" _ example_env example_run _
      \<open>''[{"a":1},{"b":2}]''\<close> \<open>[''{"a":1}'', ''{"b":2}'']\<close> "''data/customers.json''" ?files
      \<open>''[{"a":1},{"b":2}]''\<close> \<open>[''{"a":1}'', ''{"b":2}'']\<close>, OF _ refl refl]
  have cust: \<open>calls (processFile example_env example_run ''data/customers.json'') =
      [DeleteMany ''customers'', InsertMany ''customers'' [''{"a":1}'', ''{"b":2}'']]\<close>
    using okc rc pc
    by (auto simp: example_names example_run_def processFile_def Let_def example_env_def)
  have db: \<open>database (processFile example_env example_run ''data/customers.json'') ''customers'' =
      [''{"a":1}'', ''{"b":2}'']\<close>
    using rc pc
    by (simp add: processFile_def Let_def example_names)
       (simp add: example_env_def example_run_def)
  from fail locked cust db reach show ?thesis by simp
qed

end
